theory Spec2Isabelle
  imports Complex_Main "HOL-Library.AList" "HOL-Library.FSet" "HOL-Library.Multiset"
begin

section \<open>Qt containers and the SQL driver\<close>

text \<open>
  The connection pool and the manager of \<^verbatim>\<open>src/Base/BaseDatabaseManager.cpp\<close> and
  \<^verbatim>\<open>src/Base/BaseDatabaseManager.h\<close>. The pool keeps its bookkeeping in \<^verbatim>\<open>QHash\<close>es keyed
  by \<^verbatim>\<open>QString\<close>. A hash is an association list here, read through \<open>map_of\<close>, written
  with \<open>AList.update\<close> and \<open>AList.delete\<close>; a \<^verbatim>\<open>QQueue\<close> is a list with its head first;
  a \<^verbatim>\<open>QSet\<close> is a finite set. An empty \<^verbatim>\<open>QString\<close> is \<open>[]\<close>.
\<close>

type_synonym QString = string

type_synonym ('k, 'v) QHash = "('k \<times> 'v) list"

definition qh_contains :: "('k, 'v) QHash \<Rightarrow> 'k \<Rightarrow> bool" where
  "qh_contains h k = (map_of h k \<noteq> None)"

definition qh_value :: "('k, 'v) QHash \<Rightarrow> 'k \<Rightarrow> 'v \<Rightarrow> 'v" where
  \<comment> \<open>\<^verbatim>\<open>QHash::value(key, defaultValue)\<close>\<close>
  "qh_value h k d = (case map_of h k of None \<Rightarrow> d | Some v \<Rightarrow> v)"

definition qh_insert :: "('k, 'v) QHash \<Rightarrow> 'k \<Rightarrow> 'v \<Rightarrow> ('k, 'v) QHash" where
  "qh_insert h k v = AList.update k v h"

definition qh_remove :: "('k, 'v) QHash \<Rightarrow> 'k \<Rightarrow> ('k, 'v) QHash" where
  "qh_remove h k = AList.delete k h"

definition qh_index :: "('k, 'v) QHash \<Rightarrow> 'k \<Rightarrow> 'v \<Rightarrow> ('k, 'v) QHash" where
  \<comment> \<open>\<^verbatim>\<open>operator[]\<close>: a missing key is inserted with a default-constructed value\<close>
  "qh_index h k d = (if qh_contains h k then h else qh_insert h k d)"

text \<open>
  \<^verbatim>\<open>QPointer<QThread>\<close>: a guarded pointer, null once the thread object is destroyed.
\<close>

datatype QPointer = Expired | Alive

text \<open>
  The calls the pool makes on \<^verbatim>\<open>QSqlDatabase\<close>, each with the connection name it is made on.
\<close>

datatype sql_call =
    AddDatabase QString
  | RemoveDatabase QString
  | Transaction QString
  | Commit QString
  | Rollback QString

text \<open>
  What the driver answers during one pool operation: \<^verbatim>\<open>db.open()\<close>, \<^verbatim>\<open>db.isOpen()\<close>,
  \<^verbatim>\<open>db.transaction()\<close>, \<^verbatim>\<open>db.commit()\<close>, \<^verbatim>\<open>db.rollback()\<close>. Each is called at most
  once per operation.
\<close>

record driver =
  open_ok :: bool
  is_open :: bool
  transaction_ok :: bool
  commit_ok :: bool
  rollback_ok :: bool

definition drv_ok :: driver where
  "drv_ok = \<lparr> open_ok = True, is_open = True, transaction_ok = True,
              commit_ok = True, rollback_ok = True \<rparr>"

definition drv_fail :: driver where
  "drv_fail = \<lparr> open_ok = True, is_open = True, transaction_ok = False,
                commit_ok = False, rollback_ok = False \<rparr>"

section \<open>ConnectionPool\<close>

record ConnectionPool =
  connectionName :: QString
  maxConnections :: int
  m_usedConnections :: "QString fset"
  m_connectionCounter :: int
  m_availableByThread :: "(QString, QString list) QHash"
  m_connOwner :: "(QString, QString) QHash"
  m_activeTxByThread :: "(QString, QString) QHash"
  m_threadRefs :: "(QString, QPointer) QHash"
  driver_log :: "sql_call list"

text \<open>
  \<open>connectionName\<close> and \<open>maxConnections\<close> are the two fields of \<^verbatim>\<open>m_config\<close> the pool
  operations read. \<open>driver_log\<close> is not a member of the class: it records the driver calls
  made so far, oldest first (the \<^verbatim>\<open>PRAGMA\<close>s of \<^verbatim>\<open>configureDatabase\<close> and the log
  messages are left out). The constructor leaves every container empty.
\<close>

definition ConnectionPool_new :: "QString \<Rightarrow> int \<Rightarrow> ConnectionPool" where
  "ConnectionPool_new cname maxc =
     \<lparr> connectionName = cname, maxConnections = maxc, m_usedConnections = {||},
       m_connectionCounter = 0, m_availableByThread = [], m_connOwner = [],
       m_activeTxByThread = [], m_threadRefs = [], driver_log = [] \<rparr>"

definition idle_total :: "(QString, QString list) QHash \<Rightarrow> nat" where
  "idle_total h = sum_list (map (\<lambda>kv. length (snd kv)) h)"

definition totalConnectionsUnsafe :: "ConnectionPool \<Rightarrow> int" where
  "totalConnectionsUnsafe p =
     int (fcard (m_usedConnections p)) + int (idle_total (m_availableByThread p))"

definition availableCount :: "ConnectionPool \<Rightarrow> int" where
  "availableCount p = int (idle_total (m_availableByThread p))"

definition usedCount :: "ConnectionPool \<Rightarrow> int" where
  "usedCount p = int (fcard (m_usedConnections p))"

subsection \<open>The stale-thread sweep\<close>

definition stale_tids :: "ConnectionPool \<Rightarrow> QString list" where
  "stale_tids p = map fst (filter (\<lambda>kv. snd kv = Expired) (m_threadRefs p))"

definition sweep_thread :: "QString \<Rightarrow> ConnectionPool \<Rightarrow> ConnectionPool" where
  \<comment> \<open>the body of the second loop of \<^verbatim>\<open>cleanupFinishedThreads\<close>\<close>
  "sweep_thread tid p =
     p\<lparr> driver_log := driver_log p @ map RemoveDatabase (qh_value (m_availableByThread p) tid []),
        m_availableByThread := qh_remove (m_availableByThread p) tid,
        m_activeTxByThread := qh_remove (m_activeTxByThread p) tid,
        m_threadRefs := qh_remove (m_threadRefs p) tid \<rparr>"

definition cleanupFinishedThreads :: "ConnectionPool \<Rightarrow> ConnectionPool" where
  "cleanupFinishedThreads p = fold sweep_thread (stale_tids p) p"

text \<open>
  The thread object whose address renders as \<open>tid\<close> is destroyed: every guarded pointer
  to it becomes null. This is the environment's step, not a method of the pool.
\<close>

definition QThread_destroyed :: "QString \<Rightarrow> ConnectionPool \<Rightarrow> ConnectionPool" where
  "QThread_destroyed tid p =
     p\<lparr> m_threadRefs := map (\<lambda>kv. if fst kv = tid then (fst kv, Expired) else kv) (m_threadRefs p) \<rparr>"

subsection \<open>Creating a connection\<close>

text \<open>
  \<^verbatim>\<open>QString::number\<close> of an integer, in decimal.
\<close>

fun digits :: "nat \<Rightarrow> string" where
  "digits n = (if n < 10 then [char_of (48 + n)]
               else digits (n div 10) @ [char_of (48 + n mod 10)])"

declare digits.simps [simp del]

definition QString_number :: "int \<Rightarrow> QString" where
  "QString_number i = (if i < 0 then CHR ''-'' # digits (nat (- i)) else digits (nat i))"

text \<open>
  \<^verbatim>\<open>createConnectionInCurrentThread\<close>: the name is
  \<^verbatim>\<open>QString("%1_%2_%3").arg(connectionName).arg(threadId).arg(++m_connectionCounter)\<close>,
  where \<^verbatim>\<open>threadId\<close> is the same rendering of the current thread's address as
  \<^verbatim>\<open>currentTid()\<close>; \<open>conn_name\<close> is that string, for arguments without place markers of
  their own. The counter, an \<^verbatim>\<open>int\<close> in the source, is unbounded here. The result is empty
  when the connection does not open.
\<close>

definition conn_name :: "QString \<Rightarrow> QString \<Rightarrow> int \<Rightarrow> QString" where
  "conn_name pre tid c = pre @ ''_'' @ tid @ ''_'' @ QString_number c"

definition createConnectionInCurrentThread ::
    "driver \<Rightarrow> QString \<Rightarrow> ConnectionPool \<Rightarrow> QString \<times> ConnectionPool" where
  "createConnectionInCurrentThread drv tid p =
     (let c = m_connectionCounter p + 1;
          name = conn_name (connectionName p) tid c;
          p1 = p\<lparr> m_connectionCounter := c, driver_log := driver_log p @ [AddDatabase name] \<rparr>
      in if \<not> open_ok drv
         then ([], p1\<lparr> driver_log := driver_log p1 @ [RemoveDatabase name] \<rparr>)
         else (name, p1))"

subsection \<open>acquireConnection, releaseConnection, forceCloseIdleConnections\<close>

text \<open>
  Every operation takes \<open>tid\<close>, the value of \<^verbatim>\<open>currentTid()\<close> in the calling thread, and
  returns its result with the pool it leaves.
\<close>

definition enqueue :: "QString \<Rightarrow> QString \<Rightarrow> ConnectionPool \<Rightarrow> ConnectionPool" where
  \<comment> \<open>\<^verbatim>\<open>m_availableByThread[tid].enqueue(name)\<close>\<close>
  "enqueue tid name p =
     p\<lparr> m_availableByThread :=
          qh_insert (m_availableByThread p) tid (qh_value (m_availableByThread p) tid [] @ [name]) \<rparr>"

definition acquireConnection ::
    "driver \<Rightarrow> QString \<Rightarrow> ConnectionPool \<Rightarrow> QString \<times> ConnectionPool" where
  \<comment> \<open>\<open>tid\<close> is \<^verbatim>\<open>currentTid()\<close>, the calling thread\<close>
  "acquireConnection drv tid p0 =
     (let p1 = cleanupFinishedThreads p0;
          p2 = p1\<lparr> m_threadRefs := qh_insert (m_threadRefs p1) tid Alive \<rparr>
      in if qh_contains (m_activeTxByThread p2) tid
         then (qh_value (m_activeTxByThread p2) tid [], p2)
         else
           let p = p2\<lparr> m_availableByThread := qh_index (m_availableByThread p2) tid [] \<rparr>
           in case qh_value (m_availableByThread p) tid [] of
                name # rest \<Rightarrow>
                  (name, p\<lparr> m_availableByThread := qh_insert (m_availableByThread p) tid rest,
                            m_usedConnections := finsert name (m_usedConnections p) \<rparr>)
              | [] \<Rightarrow>
                  if totalConnectionsUnsafe p \<ge> maxConnections p then ([], p)
                  else (case createConnectionInCurrentThread drv tid p of
                          (name, p3) \<Rightarrow>
                            if name \<noteq> []
                            then (name, p3\<lparr> m_connOwner := qh_insert (m_connOwner p3) name tid,
                                            m_usedConnections := finsert name (m_usedConnections p3) \<rparr>)
                            else (name, p3)))"

definition releaseConnection :: "QString \<Rightarrow> QString \<Rightarrow> ConnectionPool \<Rightarrow> ConnectionPool" where
  \<comment> \<open>\<open>tid\<close> is the calling thread, \<open>name\<close> the argument\<close>
  "releaseConnection tid name p0 =
     (let p = cleanupFinishedThreads p0
      in if name |\<notin>| m_usedConnections p then p
         else let ownerTid = qh_value (m_connOwner p) name tid
              in if qh_value (m_activeTxByThread p) ownerTid [] = name then p
                 else enqueue (qh_value (m_connOwner p) name tid) name
                        (p\<lparr> m_usedConnections := m_usedConnections p |-| {|name|} \<rparr>))"

definition forceCloseIdleConnections :: "ConnectionPool \<Rightarrow> int \<times> ConnectionPool" where
  "forceCloseIdleConnections p =
     (int (idle_total (m_availableByThread p)),
      p\<lparr> driver_log := driver_log p @ map RemoveDatabase (concat (map snd (m_availableByThread p))),
         m_availableByThread := map (\<lambda>kv. (fst kv, [])) (m_availableByThread p) \<rparr>)"

subsection \<open>Thread transactions\<close>

text \<open>
  \<^verbatim>\<open>beginThreadTransaction\<close> releases the pool mutex around the driver call and takes it
  again for the bookkeeping that follows, and \<^verbatim>\<open>commitThreadTransaction\<close> and
  \<^verbatim>\<open>rollbackThreadTransaction\<close> take it twice. The definitions of this subsection are
  the calls as they run when no other pool call is made in between; their critical
  sections are given one by one further down, for runs in which calls of several threads
  overlap.
\<close>

definition begin_on :: "driver \<Rightarrow> QString \<Rightarrow> QString \<Rightarrow> ConnectionPool \<Rightarrow> QString \<times> ConnectionPool" where
  \<comment> \<open>from \<^verbatim>\<open>if (name.isEmpty()) return QString();\<close> to the end of the function\<close>
  "begin_on drv tid name p =
     (if name = [] then ([], p)
      else if \<not> is_open drv
      then ([], enqueue tid name (p\<lparr> m_usedConnections := m_usedConnections p |-| {|name|} \<rparr>))
      else let p1 = p\<lparr> driver_log := driver_log p @ [Transaction name] \<rparr>
           in if \<not> transaction_ok drv
              then ([], enqueue tid name (p1\<lparr> m_usedConnections := m_usedConnections p1 |-| {|name|} \<rparr>))
              else (name, p1\<lparr> m_activeTxByThread := qh_insert (m_activeTxByThread p1) tid name \<rparr>))"

definition beginThreadTransaction ::
    "driver \<Rightarrow> QString \<Rightarrow> ConnectionPool \<Rightarrow> QString \<times> ConnectionPool" where
  "beginThreadTransaction drv tid p0 =
     (if qh_contains (m_activeTxByThread p0) tid
      then (qh_value (m_activeTxByThread p0) tid [], p0)
      else
        let p = p0\<lparr> m_availableByThread := qh_index (m_availableByThread p0) tid [] \<rparr>
        in case qh_value (m_availableByThread p) tid [] of
             name # rest \<Rightarrow>
               begin_on drv tid name
                 (p\<lparr> m_availableByThread := qh_insert (m_availableByThread p) tid rest,
                     m_usedConnections := finsert name (m_usedConnections p) \<rparr>)
           | [] \<Rightarrow>
               if totalConnectionsUnsafe p \<ge> maxConnections p then ([], p)
               else (case createConnectionInCurrentThread drv tid p of
                       (name, p3) \<Rightarrow>
                         begin_on drv tid name
                           (if name \<noteq> []
                            then p3\<lparr> m_connOwner := qh_insert (m_connOwner p3) name tid,
                                     m_usedConnections := finsert name (m_usedConnections p3) \<rparr>
                            else p3)))"

definition commitThreadTransaction :: "driver \<Rightarrow> QString \<Rightarrow> ConnectionPool \<Rightarrow> bool \<times> ConnectionPool" where
  "commitThreadTransaction drv tid p =
     (let name = qh_value (m_activeTxByThread p) tid [];
          p1 = p\<lparr> m_activeTxByThread := qh_remove (m_activeTxByThread p) tid \<rparr>
      in if name = [] then (False, p1)
         else (commit_ok drv,
               releaseConnection tid name (p1\<lparr> driver_log := driver_log p1 @ [Commit name] \<rparr>)))"

definition rollbackThreadTransaction :: "driver \<Rightarrow> QString \<Rightarrow> ConnectionPool \<Rightarrow> bool \<times> ConnectionPool" where
  "rollbackThreadTransaction drv tid p =
     (let name = qh_value (m_activeTxByThread p) tid [];
          p1 = p\<lparr> m_activeTxByThread := qh_remove (m_activeTxByThread p) tid \<rparr>
      in if name = [] then (False, p1)
         else (rollback_ok drv,
               releaseConnection tid name (p1\<lparr> driver_log := driver_log p1 @ [Rollback name] \<rparr>)))"

subsection \<open>Runs of the pool\<close>

text \<open>
  A run is a sequence of calls that do not overlap, each by some thread \<open>tid\<close> and with
  the answers the driver gives during it; \<open>ThreadDestroyed\<close> is the destruction of a
  thread object between two calls.
\<close>

datatype pool_op =
    Acquire driver QString
  | Release QString QString
  | Begin driver QString
  | CommitTx driver QString
  | RollbackTx driver QString
  | ForceCloseIdle
  | ThreadDestroyed QString

fun run_op :: "pool_op \<Rightarrow> ConnectionPool \<Rightarrow> ConnectionPool" where
  "run_op (Acquire drv tid) p = snd (acquireConnection drv tid p)"
| "run_op (Release tid name) p = releaseConnection tid name p"
| "run_op (Begin drv tid) p = snd (beginThreadTransaction drv tid p)"
| "run_op (CommitTx drv tid) p = snd (commitThreadTransaction drv tid p)"
| "run_op (RollbackTx drv tid) p = snd (rollbackThreadTransaction drv tid p)"
| "run_op ForceCloseIdle p = snd (forceCloseIdleConnections p)"
| "run_op (ThreadDestroyed tid) p = QThread_destroyed tid p"

definition run_ops :: "pool_op list \<Rightarrow> ConnectionPool \<Rightarrow> ConnectionPool" where
  "run_ops ops p = fold run_op ops p"

subsection \<open>Critical sections and overlapping calls\<close>

text \<open>
  The pool mutex makes a critical section atomic, not a call. \<^verbatim>\<open>acquireConnection\<close>,
  \<^verbatim>\<open>releaseConnection\<close> and \<^verbatim>\<open>forceCloseIdleConnections\<close> hold it from their first
  statement to their last. \<^verbatim>\<open>beginThreadTransaction\<close> holds it up to \<^verbatim>\<open>locker.unlock()\<close>,
  calls \<^verbatim>\<open>db.isOpen()\<close> and \<^verbatim>\<open>db.transaction()\<close> without it, and holds it again from
  \<^verbatim>\<open>locker.relock()\<close> on. \<open>begin_locked\<close> is the first of these parts: it either returns
  (the bound name, or the empty string) or reaches \<^verbatim>\<open>locker.unlock()\<close> with a non-empty
  local \<^verbatim>\<open>name\<close>. \<open>begin_native\<close> is the condition
  \<^verbatim>\<open>!db.isOpen() || !db.transaction()\<close>, negated: whether the transaction began.
  \<open>begin_relocked\<close> is what follows \<^verbatim>\<open>locker.relock()\<close> on either branch.
\<close>

datatype begin_progress = BeginReturns QString | BeginUnlocks QString

definition at_unlock :: "QString \<Rightarrow> ConnectionPool \<Rightarrow> begin_progress \<times> ConnectionPool" where
  \<comment> \<open>\<^verbatim>\<open>if (name.isEmpty()) return QString(); locker.unlock();\<close>\<close>
  "at_unlock name p = (if name = [] then (BeginReturns [], p) else (BeginUnlocks name, p))"

definition begin_locked ::
    "driver \<Rightarrow> QString \<Rightarrow> ConnectionPool \<Rightarrow> begin_progress \<times> ConnectionPool" where
  "begin_locked drv tid p0 =
     (if qh_contains (m_activeTxByThread p0) tid
      then (BeginReturns (qh_value (m_activeTxByThread p0) tid []), p0)
      else
        let p = p0\<lparr> m_availableByThread := qh_index (m_availableByThread p0) tid [] \<rparr>
        in case qh_value (m_availableByThread p) tid [] of
             name # rest \<Rightarrow>
               at_unlock name
                 (p\<lparr> m_availableByThread := qh_insert (m_availableByThread p) tid rest,
                     m_usedConnections := finsert name (m_usedConnections p) \<rparr>)
           | [] \<Rightarrow>
               if totalConnectionsUnsafe p \<ge> maxConnections p then (BeginReturns [], p)
               else (case createConnectionInCurrentThread drv tid p of
                       (name, p3) \<Rightarrow>
                         at_unlock name
                           (if name \<noteq> []
                            then p3\<lparr> m_connOwner := qh_insert (m_connOwner p3) name tid,
                                     m_usedConnections := finsert name (m_usedConnections p3) \<rparr>
                            else p3)))"

definition begin_native :: "driver \<Rightarrow> QString \<Rightarrow> ConnectionPool \<Rightarrow> bool \<times> ConnectionPool" where
  "begin_native drv name p =
     (if \<not> is_open drv then (False, p)
      else (transaction_ok drv, p\<lparr> driver_log := driver_log p @ [Transaction name] \<rparr>))"

definition begin_relocked ::
    "bool \<Rightarrow> QString \<Rightarrow> QString \<Rightarrow> ConnectionPool \<Rightarrow> QString \<times> ConnectionPool" where
  "begin_relocked began tid name p =
     (if \<not> began
      then ([], enqueue tid name (p\<lparr> m_usedConnections := m_usedConnections p |-| {|name|} \<rparr>))
      else (name, p\<lparr> m_activeTxByThread := qh_insert (m_activeTxByThread p) tid name \<rparr>))"

text \<open>
  \<^verbatim>\<open>commitThreadTransaction\<close> and \<^verbatim>\<open>rollbackThreadTransaction\<close> start with a block that
  holds the mutex for \<^verbatim>\<open>name = m_activeTxByThread.take(tid)\<close>, return \<^verbatim>\<open>false\<close> for an empty
  name, make their driver call without the mutex, and end with \<^verbatim>\<open>releaseConnection(name)\<close>,
  which takes the mutex for itself.
\<close>

definition take_binding :: "QString \<Rightarrow> ConnectionPool \<Rightarrow> QString \<times> ConnectionPool" where
  "take_binding tid p =
     (qh_value (m_activeTxByThread p) tid [],
      p\<lparr> m_activeTxByThread := qh_remove (m_activeTxByThread p) tid \<rparr>)"

text \<open>
  A thread inside a call that has released the mutex is described by its frame: the call,
  the local \<^verbatim>\<open>name\<close>, and, once the driver call is made, its answer. \<open>start\<close> runs a call
  up to the point where it gives up the mutex for the first time, which for the calls of
  one critical section is their end; \<open>native\<close> is the driver call of the frame; \<open>resume\<close>
  is the critical section after it.
\<close>

datatype frame = Unlocked pool_op QString | Called pool_op QString bool

fun caller :: "pool_op \<Rightarrow> QString option" where
  "caller (Acquire drv tid) = Some tid"
| "caller (Release tid name) = Some tid"
| "caller (Begin drv tid) = Some tid"
| "caller (CommitTx drv tid) = Some tid"
| "caller (RollbackTx drv tid) = Some tid"
| "caller ForceCloseIdle = None"
| "caller (ThreadDestroyed tid) = Some tid"

fun start :: "pool_op \<Rightarrow> ConnectionPool \<Rightarrow> frame option \<times> ConnectionPool" where
  "start (Begin drv tid) p =
     (case begin_locked drv tid p of
        (BeginReturns r, q) \<Rightarrow> (None, q)
      | (BeginUnlocks name, q) \<Rightarrow> (Some (Unlocked (Begin drv tid) name), q))"
| "start (CommitTx drv tid) p =
     (case take_binding tid p of
        (name, q) \<Rightarrow> (if name = [] then None else Some (Unlocked (CommitTx drv tid) name), q))"
| "start (RollbackTx drv tid) p =
     (case take_binding tid p of
        (name, q) \<Rightarrow> (if name = [] then None else Some (Unlocked (RollbackTx drv tid) name), q))"
| "start (Acquire drv tid) p = (None, snd (acquireConnection drv tid p))"
| "start (Release tid name) p = (None, releaseConnection tid name p)"
| "start ForceCloseIdle p = (None, snd (forceCloseIdleConnections p))"
| "start (ThreadDestroyed tid) p = (None, QThread_destroyed tid p)"

fun native :: "pool_op \<Rightarrow> QString \<Rightarrow> ConnectionPool \<Rightarrow> bool \<times> ConnectionPool" where
  "native (Begin drv tid) name p = begin_native drv name p"
| "native (CommitTx drv tid) name p = (commit_ok drv, p\<lparr> driver_log := driver_log p @ [Commit name] \<rparr>)"
| "native (RollbackTx drv tid) name p =
     (rollback_ok drv, p\<lparr> driver_log := driver_log p @ [Rollback name] \<rparr>)"
| "native x name p = (False, p)"

fun resume :: "pool_op \<Rightarrow> QString \<Rightarrow> bool \<Rightarrow> ConnectionPool \<Rightarrow> ConnectionPool" where
  "resume (Begin drv tid) name began p = snd (begin_relocked began tid name p)"
| "resume (CommitTx drv tid) name ok p = releaseConnection tid name p"
| "resume (RollbackTx drv tid) name ok p = releaseConnection tid name p"
| "resume x name ok p = p"

text \<open>
  A schedule is a sequence of steps of the threads, each atomic: a thread starts a call,
  makes the driver call of the call it is inside, or takes the mutex again and finishes
  the call. A thread inside a call starts no other, the object of such a thread is not
  destroyed, and a thread with nothing to continue does not continue: such a step is
  skipped. \<open>whole\<close> is a call with no step of another thread inside.
\<close>

record pool_run =
  pool_state :: ConnectionPool
  frames :: "(QString, frame) QHash"

definition pool_run_new :: "QString \<Rightarrow> int \<Rightarrow> pool_run" where
  "pool_run_new cname maxc = \<lparr> pool_state = ConnectionPool_new cname maxc, frames = [] \<rparr>"

datatype pool_step = Start pool_op | Native QString | Resume QString

fun sched_step :: "pool_step \<Rightarrow> pool_run \<Rightarrow> pool_run" where
  "sched_step (Start x) s =
     (case caller x of
        None \<Rightarrow> s\<lparr> pool_state := snd (start x (pool_state s)) \<rparr>
      | Some tid \<Rightarrow>
          if qh_contains (frames s) tid then s
          else (case start x (pool_state s) of
                  (None, q) \<Rightarrow> s\<lparr> pool_state := q \<rparr>
                | (Some f, q) \<Rightarrow> s\<lparr> pool_state := q, frames := qh_insert (frames s) tid f \<rparr>))"
| "sched_step (Native tid) s =
     (case map_of (frames s) tid of
        Some (Unlocked x name) \<Rightarrow>
          (case native x name (pool_state s) of
             (ok, q) \<Rightarrow> s\<lparr> pool_state := q, frames := qh_insert (frames s) tid (Called x name ok) \<rparr>)
      | _ \<Rightarrow> s)"
| "sched_step (Resume tid) s =
     (case map_of (frames s) tid of
        Some (Called x name ok) \<Rightarrow>
          s\<lparr> pool_state := resume x name ok (pool_state s), frames := qh_remove (frames s) tid \<rparr>
      | _ \<Rightarrow> s)"

definition run_schedule :: "pool_step list \<Rightarrow> pool_run \<Rightarrow> pool_run" where
  "run_schedule steps s = fold sched_step steps s"

definition whole :: "pool_op \<Rightarrow> pool_step list" where
  "whole x = Start x # (case caller x of None \<Rightarrow> [] | Some tid \<Rightarrow> [Native tid, Resume tid])"

section \<open>BaseDatabaseManager\<close>

subsection \<open>Query statistics\<close>

record DatabaseStats =
  totalQueries :: int
  successfulQueries :: int
  failedQueries :: int
  lastQueryTime :: int
  avgQueryTime :: real

text \<open>
  \<^verbatim>\<open>DatabaseStats{}\<close> followed by \<^verbatim>\<open>lastQueryTime = QDateTime::currentDateTime()\<close>, as the
  constructor and \<^verbatim>\<open>resetStatistics\<close> both do. Time stamps are integers; the counters,
  \<^verbatim>\<open>qint64\<close> in the source, are unbounded integers; the average, a \<^verbatim>\<open>double\<close> in the
  source, is a real number.
\<close>

definition DatabaseStats_init :: "int \<Rightarrow> DatabaseStats" where
  "DatabaseStats_init now =
     \<lparr> totalQueries = 0, successfulQueries = 0, failedQueries = 0,
       lastQueryTime = now, avgQueryTime = 0 \<rparr>"

definition resetStatistics :: "int \<Rightarrow> DatabaseStats \<Rightarrow> DatabaseStats" where
  "resetStatistics now s = (DatabaseStats_init now)"

definition recordQueryStats :: "bool \<Rightarrow> real \<Rightarrow> int \<Rightarrow> DatabaseStats \<Rightarrow> DatabaseStats" where
  "recordQueryStats success queryTime now s =
     (let s1 = s\<lparr> totalQueries := totalQueries s + 1 \<rparr>;
          s2 = (if success then s1\<lparr> successfulQueries := successfulQueries s1 + 1 \<rparr>
                else s1\<lparr> failedQueries := failedQueries s1 + 1 \<rparr>);
          s3 = s2\<lparr> lastQueryTime := now \<rparr>
      in s3\<lparr> avgQueryTime :=
               (avgQueryTime s3 * real_of_int (totalQueries s3 - 1) + queryTime)
                 / real_of_int (totalQueries s3) \<rparr>)"

subsection \<open>The manager and its transactions\<close>

text \<open>
  Of the manager: whether WAL is configured, the pool (a \<^verbatim>\<open>unique_ptr\<close> that \<^verbatim>\<open>close()\<close>
  resets), whether the main connection \<^verbatim>\<open>m_database\<close> is open, and the statistics;
  \<open>m_database_log\<close> records the calls made on the main connection and \<open>emitted\<close> the
  signals emitted, oldest first. The constructor builds the pool and leaves the main
  connection closed.
\<close>

datatype main_call = MainTransaction | MainCommit | MainRollback | Exec QString

datatype signal = transactionBegin | transactionCommitted | transactionRolledBack

record BaseDatabaseManager =
  enableWAL :: bool
  m_connectionPool :: "ConnectionPool option"
  m_database_isOpen :: bool
  m_database_log :: "main_call list"
  m_stats :: DatabaseStats
  emitted :: "signal list"

definition BaseDatabaseManager_new :: "QString \<Rightarrow> int \<Rightarrow> bool \<Rightarrow> int \<Rightarrow> BaseDatabaseManager" where
  "BaseDatabaseManager_new cname maxc wal now =
     \<lparr> enableWAL = wal, m_connectionPool = Some (ConnectionPool_new cname maxc),
       m_database_isOpen = False, m_database_log = [], m_stats = DatabaseStats_init now,
       emitted = [] \<rparr>"

definition beginTransaction :: "driver \<Rightarrow> QString \<Rightarrow> BaseDatabaseManager \<Rightarrow> bool \<times> BaseDatabaseManager" where
  "beginTransaction drv tid m =
     (case m_connectionPool m of
        Some pool \<Rightarrow>
          (case beginThreadTransaction drv tid pool of
             (name, pool') \<Rightarrow>
               if name = [] then (False, m\<lparr> m_connectionPool := Some pool' \<rparr>)
               else (True, m\<lparr> m_connectionPool := Some pool',
                              emitted := emitted m @ [transactionBegin] \<rparr>))
      | None \<Rightarrow>
          if \<not> m_database_isOpen m then (False, m)
          else let ok = transaction_ok drv;
                   m1 = m\<lparr> m_database_log := m_database_log m @ [MainTransaction] \<rparr>
               in (ok, if ok then m1\<lparr> emitted := emitted m1 @ [transactionBegin] \<rparr> else m1))"

definition commitTransaction :: "driver \<Rightarrow> QString \<Rightarrow> BaseDatabaseManager \<Rightarrow> bool \<times> BaseDatabaseManager" where
  "commitTransaction drv tid m =
     (case m_connectionPool m of
        Some pool \<Rightarrow>
          (case commitThreadTransaction drv tid pool of
             (ok, pool') \<Rightarrow>
               if \<not> ok then (False, m\<lparr> m_connectionPool := Some pool' \<rparr>)
               else (True, m\<lparr> m_connectionPool := Some pool',
                              emitted := emitted m @ [transactionCommitted] \<rparr>))
      | None \<Rightarrow>
          if \<not> m_database_isOpen m then (False, m)
          else let ok = commit_ok drv;
                   m1 = m\<lparr> m_database_log := m_database_log m @ [MainCommit] \<rparr>
               in (ok, if ok then m1\<lparr> emitted := emitted m1 @ [transactionCommitted] \<rparr> else m1))"

definition rollbackTransaction :: "driver \<Rightarrow> QString \<Rightarrow> BaseDatabaseManager \<Rightarrow> bool \<times> BaseDatabaseManager" where
  "rollbackTransaction drv tid m =
     (case m_connectionPool m of
        Some pool \<Rightarrow>
          (case rollbackThreadTransaction drv tid pool of
             (ok, pool') \<Rightarrow>
               if \<not> ok then (False, m\<lparr> m_connectionPool := Some pool' \<rparr>)
               else (True, m\<lparr> m_connectionPool := Some pool',
                              emitted := emitted m @ [transactionRolledBack] \<rparr>))
      | None \<Rightarrow>
          if \<not> m_database_isOpen m then (False, m)
          else let ok = rollback_ok drv;
                   m1 = m\<lparr> m_database_log := m_database_log m @ [MainRollback] \<rparr>
               in (ok, if ok then m1\<lparr> emitted := emitted m1 @ [transactionRolledBack] \<rparr> else m1))"

text \<open>
  \<^verbatim>\<open>executeInTransaction\<close> is a template over the operation's return type. A value of a
  return type is a \<open>bool\<close>, a value of a class with a \<^verbatim>\<open>success\<close> member (the member and
  the rest), or a value of any other type; a return type is \<open>bool\<close> or another type, given
  by its value-initialised object \<^verbatim>\<open>ReturnType{}\<close>. The operation either returns or throws,
  and leaves the manager in some state.
\<close>

datatype 'a result = RBool bool | RSuccess bool 'a | ROther 'a

datatype 'a ReturnType = BoolType | ClassType "'a result"

datatype 'a outcome = Returned "'a result" | Threw string

definition executeInTransaction ::
    "'a ReturnType \<Rightarrow> driver \<Rightarrow> QString
      \<Rightarrow> (BaseDatabaseManager \<Rightarrow> 'a outcome \<times> BaseDatabaseManager)
      \<Rightarrow> BaseDatabaseManager \<Rightarrow> 'a outcome \<times> BaseDatabaseManager" where
  "executeInTransaction rt drv tid operation m =
     (case beginTransaction drv tid m of
        (False, m1) \<Rightarrow>
          (case rt of
             BoolType \<Rightarrow> (Returned (RBool False), m1)
           | ClassType dflt \<Rightarrow> (Returned dflt, m1))
      | (True, m1) \<Rightarrow>
          (case operation m1 of
             (Returned res, m2) \<Rightarrow>
               (Returned res,
                case res of
                  RBool b \<Rightarrow>
                    if b then snd (commitTransaction drv tid m2)
                    else snd (rollbackTransaction drv tid m2)
                | RSuccess b x \<Rightarrow>
                    if b then snd (commitTransaction drv tid m2)
                    else snd (rollbackTransaction drv tid m2)
                | ROther x \<Rightarrow> snd (commitTransaction drv tid m2))
           | (Threw e, m2) \<Rightarrow> (Threw e, snd (rollbackTransaction drv tid m2))))"

definition default_result :: "'a ReturnType \<Rightarrow> 'a result" where
  "default_result rt = (case rt of BoolType \<Rightarrow> RBool False | ClassType dflt \<Rightarrow> dflt)"

subsection \<open>optimizeDatabase\<close>

text \<open>
  \<open>exec_ok sql\<close> is what \<^verbatim>\<open>query.exec(sql)\<close> answers on the main connection,
  \<open>elapsed sql\<close> the milliseconds the timer shows after it, \<open>now\<close> the clock.
\<close>

definition exec_with_stats ::
    "(QString \<Rightarrow> bool) \<Rightarrow> (QString \<Rightarrow> int) \<Rightarrow> int \<Rightarrow> QString
      \<Rightarrow> BaseDatabaseManager \<Rightarrow> bool \<times> BaseDatabaseManager" where
  "exec_with_stats exec_ok elapsed now sql m =
     (exec_ok sql,
      m\<lparr> m_database_log := m_database_log m @ [Exec sql],
         m_stats := recordQueryStats (exec_ok sql) (real_of_int (elapsed sql)) now (m_stats m) \<rparr>)"

definition optimizeDatabase ::
    "(QString \<Rightarrow> bool) \<Rightarrow> (QString \<Rightarrow> int) \<Rightarrow> int
      \<Rightarrow> BaseDatabaseManager \<Rightarrow> bool \<times> BaseDatabaseManager" where
  "optimizeDatabase exec_ok elapsed now m =
     (if \<not> m_database_isOpen m then (False, m)
      else
        let m1 = (case m_connectionPool m of
                    None \<Rightarrow> m
                  | Some pool \<Rightarrow>
                      m\<lparr> m_connectionPool := Some (snd (forceCloseIdleConnections pool)) \<rparr>)
        in if (case m_connectionPool m1 of None \<Rightarrow> False | Some pool \<Rightarrow> usedCount pool > 0)
           then (False, m1)
           else
             let m2 = (if enableWAL m1
                       then snd (exec_with_stats exec_ok elapsed now
                                   ''PRAGMA wal_checkpoint(TRUNCATE)'' m1)
                       else m1);
                 v = exec_with_stats exec_ok elapsed now ''VACUUM'' m2;
                 a = exec_with_stats exec_ok elapsed now ''ANALYZE'' (snd v)
             in (fst v \<and> fst a, snd a))"

section \<open>Properties and example states\<close>

text \<open>
  The cap; what the sweep leaves of a hash; the reading of a decimal rendering; the facts
  that hold of every pool the operations can produce (a bound connection is in use and
  owned by the thread it is bound to, an idle connection is owned by the thread whose
  queue holds it, a connection in use has an owner, and every owned name was generated
  with a counter value already passed); a connection back at the tail of a queue.
\<close>

definition within_cap :: "ConnectionPool \<Rightarrow> bool" where
  "within_cap p = (totalConnectionsUnsafe p \<le> maxConnections p)"

definition drop_keys :: "'k list \<Rightarrow> ('k, 'v) QHash \<Rightarrow> ('k, 'v) QHash" where
  "drop_keys ks h = filter (\<lambda>kv. fst kv \<notin> set ks) h"

definition digits_value :: "string \<Rightarrow> nat" where
  "digits_value s = foldl (\<lambda>v c. 10 * v + (of_char c - 48)) 0 s"

definition bound_ok :: "ConnectionPool \<Rightarrow> bool" where
  "bound_ok p = (\<forall>t n. map_of (m_activeTxByThread p) t = Some n \<longrightarrow>
      n \<noteq> [] \<and> n |\<in>| m_usedConnections p \<and> map_of (m_connOwner p) n = Some t)"

definition idle_ok :: "ConnectionPool \<Rightarrow> bool" where
  "idle_ok p = (\<forall>t q. map_of (m_availableByThread p) t = Some q \<longrightarrow>
      (\<forall>n \<in> set q. n \<noteq> [] \<and> map_of (m_connOwner p) n = Some t))"

definition used_ok :: "ConnectionPool \<Rightarrow> bool" where
  "used_ok p = (\<forall>n. n |\<in>| m_usedConnections p \<longrightarrow> n \<noteq> [] \<and> map_of (m_connOwner p) n \<noteq> None)"

definition names_ok :: "ConnectionPool \<Rightarrow> bool" where
  "names_ok p = (0 \<le> m_connectionCounter p \<and>
     (\<forall>n t. map_of (m_connOwner p) n = Some t \<longrightarrow>
        (\<exists>c. 0 \<le> c \<and> c \<le> m_connectionCounter p \<and> n = conn_name (connectionName p) t c)))"

definition pool_inv :: "ConnectionPool \<Rightarrow> bool" where
  "pool_inv p = (bound_ok p \<and> idle_ok p \<and> used_ok p \<and> names_ok p)"


text \<open>
  A thread holds a binding while the active-transaction map has it and the thread's
  liveness reference has not expired; the calls that end that are the thread's own commit
  and rollback and the destruction of its thread object.
\<close>

definition holds_binding :: "QString \<Rightarrow> QString \<Rightarrow> ConnectionPool \<Rightarrow> bool" where
  "holds_binding tid name p =
     (map_of (m_activeTxByThread p) tid = Some name \<and> tid \<notin> set (stale_tids p))"

fun ends_or_expires :: "QString \<Rightarrow> pool_op \<Rightarrow> bool" where
  "ends_or_expires tid (CommitTx drv t) = (t = tid)"
| "ends_or_expires tid (RollbackTx drv t) = (t = tid)"
| "ends_or_expires tid (ThreadDestroyed t) = (t = tid)"
| "ends_or_expires tid x = False"

text \<open>
  One instrumented call is its outcome, its duration and the time it is recorded at.
\<close>

type_synonym stat_call = "bool \<times> real \<times> int"

definition record_call :: "stat_call \<Rightarrow> DatabaseStats \<Rightarrow> DatabaseStats" where
  "record_call c s = recordQueryStats (fst c) (fst (snd c)) (snd (snd c)) s"

definition timings :: "stat_call list \<Rightarrow> real list" where
  "timings cs = map (\<lambda>c. fst (snd c)) cs"

definition pool_in_use :: "BaseDatabaseManager \<Rightarrow> bool" where
  "pool_in_use m = (case m_connectionPool m of None \<Rightarrow> False | Some pool \<Rightarrow> usedCount pool > 0)"

definition idle_closed :: "BaseDatabaseManager \<Rightarrow> BaseDatabaseManager" where
  "idle_closed m =
     (case m_connectionPool m of
        None \<Rightarrow> m
      | Some pool \<Rightarrow> m\<lparr> m_connectionPool := Some (snd (forceCloseIdleConnections pool)) \<rparr>)"

definition maintenance_sql :: "bool \<Rightarrow> QString list" where
  "maintenance_sql wal =
     (if wal then [''PRAGMA wal_checkpoint(TRUNCATE)''] else []) @ [''VACUUM'', ''ANALYZE'']"

text \<open>
  Pools and managers reached by a few calls: a pool in which thread \<open>1\<close> has left one idle
  connection and has been destroyed; a pool with one transaction, one idle connection, one
  connection in use; a manager before \<^verbatim>\<open>initialize()\<close> with one idle pooled connection, the
  same with the main connection open, one with a pooled connection in use, a new one, one
  inside a transaction, and one whose pool of one connection is taken.
\<close>

definition stale_example :: ConnectionPool where
  "stale_example =
     run_ops [Acquire drv_ok ''1'', Release ''1'' ''db_1_1'', ThreadDestroyed ''1'']
       (ConnectionPool_new ''db'' 2)"

definition affinity_ops :: "pool_op list" where
  "affinity_ops =
     [Release ''2'' ''db_2_2'', Begin drv_ok ''3'', Acquire drv_fail ''2'', RollbackTx drv_ok ''3'',
      ForceCloseIdle]"


definition idle_example :: ConnectionPool where
  "idle_example =
     run_ops [Acquire drv_ok ''1'', Release ''1'' ''db_1_1''] (ConnectionPool_new ''db'' 2)"

definition used_example :: ConnectionPool where
  "used_example = run_ops [Acquire drv_ok ''1''] (ConnectionPool_new ''db'' 2)"

text \<open>
  A schedule on a pool of one connection. Thread \<open>1\<close> takes the connection and gives it
  back, then starts a transaction; while it is at the driver call, thread \<open>2\<close> releases
  the connection thread \<open>1\<close> has just taken from its queue; the driver then refuses the
  transaction. \<open>release_first\<close> and \<open>release_last\<close> are the same calls with the release
  before and after the whole of \<^verbatim>\<open>beginThreadTransaction\<close>.
\<close>

definition release_in_window :: "pool_step list" where
  "release_in_window =
     [Start (Acquire drv_ok ''1''), Start (Release ''1'' ''db_1_1''),
      Start (Begin drv_fail ''1''), Start (Release ''2'' ''db_1_1''), Native ''1'', Resume ''1'']"

definition release_first :: "pool_op list" where
  "release_first =
     [Acquire drv_ok ''1'', Release ''1'' ''db_1_1'', Release ''2'' ''db_1_1'', Begin drv_fail ''1'']"

definition release_last :: "pool_op list" where
  "release_last =
     [Acquire drv_ok ''1'', Release ''1'' ''db_1_1'', Begin drv_fail ''1'', Release ''2'' ''db_1_1'']"

definition closed_example :: BaseDatabaseManager where
  "closed_example =
     snd (commitTransaction drv_ok ''1''
            (snd (beginTransaction drv_ok ''1'' (BaseDatabaseManager_new ''db'' 2 True 0))))"

definition open_example :: BaseDatabaseManager where
  "open_example = closed_example\<lparr> m_database_isOpen := True \<rparr>"

definition busy_example :: BaseDatabaseManager where
  "busy_example =
     (snd (beginTransaction drv_ok ''1'' (BaseDatabaseManager_new ''db'' 2 True 0)))
       \<lparr> m_database_isOpen := True \<rparr>"

definition fresh_manager :: BaseDatabaseManager where
  "fresh_manager = BaseDatabaseManager_new ''db'' 2 True 0"

definition in_tx :: BaseDatabaseManager where
  "in_tx = snd (beginTransaction drv_ok ''1'' fresh_manager)"

definition exhausted :: BaseDatabaseManager where
  "exhausted = snd (beginTransaction drv_ok ''1'' (BaseDatabaseManager_new ''db'' 1 True 0))"

section \<open>Facts about hashes\<close>

lemma map_of_qh_insert:
  "map_of (qh_insert h k v) k' = (if k' = k then Some v else map_of h k')"
  by (simp add: qh_insert_def update_conv')

lemma qh_value_insert:
  "qh_value (qh_insert h k v) k' d = (if k' = k then v else qh_value h k' d)"
  by (simp add: qh_value_def map_of_qh_insert)

lemma map_of_insert_same: "map_of (qh_insert h k v) k = Some v"
  by (simp add: qh_insert_def update_conv')

lemma qh_remove_absent: "map_of h k = None \<Longrightarrow> qh_remove h k = h"
  by (simp add: qh_remove_def map_of_eq_None_iff)

lemma map_of_qh_remove: "map_of (qh_remove h k) k' = (if k' = k then None else map_of h k')"
  by (simp add: qh_remove_def delete_conv')

lemma map_of_qh_index:
  "map_of (qh_index h k []) t = (if t = k \<and> map_of h k = None then Some [] else map_of h t)"
proof (cases "map_of h k")
  case None
  then show ?thesis by (simp add: qh_index_def qh_contains_def map_of_qh_insert)
next
  case (Some v)
  then show ?thesis by (simp add: qh_index_def qh_contains_def)
qed

lemma qh_value_index: "qh_value (qh_index h k d) k d = qh_value h k d"
  by (auto simp: qh_index_def qh_insert_def qh_contains_def qh_value_def update_conv')

lemma qh_value_Cons_map_of: "qh_value h k [] = x # xs \<Longrightarrow> map_of h k = Some (x # xs)"
  by (auto simp: qh_value_def split: option.splits)

lemma map_of_clear:
  "map_of (map (\<lambda>kv. (fst kv, [])) h) t = map_option (\<lambda>_. []) (map_of h t)"
  by (induction h) auto

section \<open>The connection cap\<close>

lemma idle_total_update:
  "idle_total (AList.update k v h) + length (qh_value h k []) = idle_total h + length v"
  by (induction h) (auto simp: idle_total_def qh_value_def)

lemma idle_total_delete: "idle_total (AList.delete k h) \<le> idle_total h"
  by (induction h) (auto simp: idle_total_def)

lemma idle_total_index: "idle_total (qh_index h k []) = idle_total h"
  using idle_total_update [of k "[]" h]
  by (auto simp: qh_index_def qh_insert_def qh_contains_def qh_value_def split: option.splits)

lemma idle_total_clear: "idle_total (map (\<lambda>kv. (fst kv, [])) h) = 0"
  by (induction h) (auto simp: idle_total_def)

lemma total_sweep_thread:
  "totalConnectionsUnsafe (sweep_thread tid p) \<le> totalConnectionsUnsafe p"
  "maxConnections (sweep_thread tid p) = maxConnections p"
  using idle_total_delete [of tid "m_availableByThread p"]
  by (simp_all add: sweep_thread_def totalConnectionsUnsafe_def qh_remove_def)

lemma total_fold_sweep:
  "totalConnectionsUnsafe (fold sweep_thread ts p) \<le> totalConnectionsUnsafe p
   \<and> maxConnections (fold sweep_thread ts p) = maxConnections p"
proof (induction ts arbitrary: p)
  case Nil
  show ?case by simp
next
  case (Cons t ts)
  from Cons [of "sweep_thread t p"] total_sweep_thread [of t p]
  show ?case by simp
qed

lemma cap_cleanup: "within_cap p \<Longrightarrow> within_cap (cleanupFinishedThreads p)"
  using total_fold_sweep [of "stale_tids p" p]
  by (simp add: within_cap_def cleanupFinishedThreads_def)

lemma total_enqueue:
  "totalConnectionsUnsafe (enqueue tid name p) = totalConnectionsUnsafe p + 1"
  "maxConnections (enqueue tid name p) = maxConnections p"
  using idle_total_update [of tid "qh_value (m_availableByThread p) tid [] @ [name]" "m_availableByThread p"]
  by (simp_all add: enqueue_def totalConnectionsUnsafe_def qh_insert_def)

lemma fcard_remove_le: "fcard (s |-| {|x|}) \<le> fcard s"
  by (rule fcard_mono) auto

lemma fcard_remove_in: "x |\<in>| s \<Longrightarrow> int (fcard (s |-| {|x|})) + 1 = int (fcard s)"
  using fcard_Suc_fminus1 [of x s] by linarith

lemma fcard_finsert_le: "fcard (finsert x s) \<le> fcard s + 1"
  by (simp add: fcard_finsert_if)

lemma total_used_remove_in:
  "name |\<in>| m_usedConnections p \<Longrightarrow>
   totalConnectionsUnsafe (p\<lparr> m_usedConnections := m_usedConnections p |-| {|name|} \<rparr>) + 1
     = totalConnectionsUnsafe p"
  using fcard_remove_in [of name "m_usedConnections p"]
  by (simp add: totalConnectionsUnsafe_def)

lemma total_log [simp]:
  "totalConnectionsUnsafe (p\<lparr> driver_log := l \<rparr>) = totalConnectionsUnsafe p"
  "totalConnectionsUnsafe (p\<lparr> m_threadRefs := r \<rparr>) = totalConnectionsUnsafe p"
  "totalConnectionsUnsafe (p\<lparr> m_activeTxByThread := a \<rparr>) = totalConnectionsUnsafe p"
  "totalConnectionsUnsafe (p\<lparr> m_connOwner := ow \<rparr>) = totalConnectionsUnsafe p"
  "totalConnectionsUnsafe (p\<lparr> m_connectionCounter := c \<rparr>) = totalConnectionsUnsafe p"
  by (simp_all add: totalConnectionsUnsafe_def)

lemma cap_release: "within_cap p \<Longrightarrow> within_cap (releaseConnection tid name p)"
proof -
  assume cap: "within_cap p"
  define q where "q = cleanupFinishedThreads p"
  have q: "within_cap q" using cap cap_cleanup q_def by simp
  show ?thesis
  proof (cases "name |\<in>| m_usedConnections q
                \<and> qh_value (m_activeTxByThread q) (qh_value (m_connOwner q) name tid) [] \<noteq> name")
    case True
    then have "totalConnectionsUnsafe (releaseConnection tid name p) = totalConnectionsUnsafe q"
      using total_used_remove_in [of name q]
      by (simp add: releaseConnection_def Let_def q_def [symmetric] total_enqueue)
    moreover have "maxConnections (releaseConnection tid name p) = maxConnections q"
      using True by (simp add: releaseConnection_def Let_def q_def [symmetric] total_enqueue)
    ultimately show ?thesis using q by (simp add: within_cap_def)
  next
    case False
    then have "releaseConnection tid name p = q"
      by (auto simp: releaseConnection_def Let_def q_def [symmetric])
    then show ?thesis using q by simp
  qed
qed

lemma cap_forceClose: "within_cap p \<Longrightarrow> within_cap (snd (forceCloseIdleConnections p))"
  by (simp add: forceCloseIdleConnections_def within_cap_def totalConnectionsUnsafe_def idle_total_clear)

lemma cap_destroyed: "within_cap p \<Longrightarrow> within_cap (QThread_destroyed tid p)"
  by (simp add: QThread_destroyed_def within_cap_def)

lemma total_index:
  "totalConnectionsUnsafe (p\<lparr> m_availableByThread := qh_index (m_availableByThread p) tid [] \<rparr>)
     = totalConnectionsUnsafe p"
  by (simp add: totalConnectionsUnsafe_def idle_total_index)

lemma total_dequeue:
  assumes "qh_value (m_availableByThread p) tid [] = name # rest"
  shows "totalConnectionsUnsafe
           (p\<lparr> m_availableByThread := qh_insert (m_availableByThread p) tid rest,
               m_usedConnections := finsert name (m_usedConnections p) \<rparr>)
         \<le> totalConnectionsUnsafe p"
  using idle_total_update [of tid rest "m_availableByThread p"] assms
        fcard_finsert_le [of name "m_usedConnections p"]
  by (simp add: totalConnectionsUnsafe_def qh_insert_def)

lemma total_used_insert:
  "totalConnectionsUnsafe (p\<lparr> m_usedConnections := finsert name (m_usedConnections p) \<rparr>)
     \<le> totalConnectionsUnsafe p + 1"
  using fcard_finsert_le [of name "m_usedConnections p"]
  by (simp add: totalConnectionsUnsafe_def)

lemma create_frame:
  assumes "createConnectionInCurrentThread drv tid p = (name, p1)"
  shows "totalConnectionsUnsafe p1 = totalConnectionsUnsafe p"
    and "maxConnections p1 = maxConnections p"
    and "m_usedConnections p1 = m_usedConnections p"
    and "m_availableByThread p1 = m_availableByThread p"
    and "m_activeTxByThread p1 = m_activeTxByThread p"
    and "m_connOwner p1 = m_connOwner p"
    and "m_threadRefs p1 = m_threadRefs p"
  using assms
  by (auto simp: createConnectionInCurrentThread_def Let_def split: if_splits)

lemma cap_begin_on:
  assumes "within_cap p" and "name = [] \<or> name |\<in>| m_usedConnections p"
  shows "within_cap (snd (begin_on drv tid name p))"
proof (cases "name = []")
  case True
  then show ?thesis using assms by (simp add: begin_on_def)
next
  case False
  with assms have mem: "name |\<in>| m_usedConnections p" by simp
  have "totalConnectionsUnsafe (snd (begin_on drv tid name p)) = totalConnectionsUnsafe p"
    using False total_used_remove_in [OF mem]
          total_used_remove_in [of name "p\<lparr> driver_log := driver_log p @ [Transaction name] \<rparr>"] mem
    by (simp add: begin_on_def Let_def total_enqueue)
  moreover have "maxConnections (snd (begin_on drv tid name p)) = maxConnections p"
    by (simp add: begin_on_def Let_def total_enqueue)
  ultimately show ?thesis using assms by (simp add: within_cap_def)
qed

lemma cap_acquire: "within_cap p \<Longrightarrow> within_cap (snd (acquireConnection drv tid p))"
proof -
  assume cap: "within_cap p"
  define q where "q = (cleanupFinishedThreads p)\<lparr> m_threadRefs :=
                        qh_insert (m_threadRefs (cleanupFinishedThreads p)) tid Alive \<rparr>"
  define r where "r = q\<lparr> m_availableByThread := qh_index (m_availableByThread q) tid [] \<rparr>"
  have q: "within_cap q" using cap_cleanup [OF cap] by (simp add: q_def within_cap_def)
  have r: "within_cap r" using q total_index [of q tid] by (simp add: r_def within_cap_def)
  have unfold: "acquireConnection drv tid p =
     (if qh_contains (m_activeTxByThread q) tid then (qh_value (m_activeTxByThread q) tid [], q)
      else case qh_value (m_availableByThread r) tid [] of
             name # rest \<Rightarrow>
               (name, r\<lparr> m_availableByThread := qh_insert (m_availableByThread r) tid rest,
                         m_usedConnections := finsert name (m_usedConnections r) \<rparr>)
           | [] \<Rightarrow>
               if totalConnectionsUnsafe r \<ge> maxConnections r then ([], r)
               else (case createConnectionInCurrentThread drv tid r of
                       (name, p3) \<Rightarrow>
                         if name \<noteq> []
                         then (name, p3\<lparr> m_connOwner := qh_insert (m_connOwner p3) name tid,
                                         m_usedConnections := finsert name (m_usedConnections p3) \<rparr>)
                         else (name, p3)))"
    unfolding acquireConnection_def Let_def q_def r_def by (rule refl)
  show ?thesis
  proof (cases "qh_contains (m_activeTxByThread q) tid")
    case True
    then show ?thesis using q unfold by simp
  next
    case noTx: False
    show ?thesis
    proof (cases "qh_value (m_availableByThread r) tid []")
      case (Cons name rest)
      then show ?thesis using noTx unfold r total_dequeue [OF Cons]
        by (simp add: within_cap_def)
    next
      case Nil
      show ?thesis
      proof (cases "totalConnectionsUnsafe r \<ge> maxConnections r")
        case True
        then show ?thesis using noTx Nil unfold r by simp
      next
        case False
        obtain name p3 where cr: "createConnectionInCurrentThread drv tid r = (name, p3)"
          by (cases "createConnectionInCurrentThread drv tid r") auto
        show ?thesis
          using noTx Nil False unfold cr create_frame(1,2) [OF cr]
                total_used_insert [of name "p3\<lparr> m_connOwner := qh_insert (m_connOwner p3) name tid \<rparr>"]
          by (auto simp: within_cap_def)
      qed
    qed
  qed
qed

lemma cap_begin: "within_cap p \<Longrightarrow> within_cap (snd (beginThreadTransaction drv tid p))"
proof -
  assume cap: "within_cap p"
  define r where "r = p\<lparr> m_availableByThread := qh_index (m_availableByThread p) tid [] \<rparr>"
  have r: "within_cap r" using cap total_index [of p tid] by (simp add: r_def within_cap_def)
  have unfold: "beginThreadTransaction drv tid p =
     (if qh_contains (m_activeTxByThread p) tid then (qh_value (m_activeTxByThread p) tid [], p)
      else case qh_value (m_availableByThread r) tid [] of
             name # rest \<Rightarrow>
               begin_on drv tid name
                 (r\<lparr> m_availableByThread := qh_insert (m_availableByThread r) tid rest,
                     m_usedConnections := finsert name (m_usedConnections r) \<rparr>)
           | [] \<Rightarrow>
               if totalConnectionsUnsafe r \<ge> maxConnections r then ([], r)
               else (case createConnectionInCurrentThread drv tid r of
                       (name, p3) \<Rightarrow>
                         begin_on drv tid name
                           (if name \<noteq> []
                            then p3\<lparr> m_connOwner := qh_insert (m_connOwner p3) name tid,
                                     m_usedConnections := finsert name (m_usedConnections p3) \<rparr>
                            else p3)))"
    unfolding beginThreadTransaction_def Let_def r_def by (rule refl)
  show ?thesis
  proof (cases "qh_contains (m_activeTxByThread p) tid")
    case True
    then show ?thesis using cap unfold by simp
  next
    case noTx: False
    show ?thesis
    proof (cases "qh_value (m_availableByThread r) tid []")
      case (Cons name rest)
      define r1 where "r1 = r\<lparr> m_availableByThread := qh_insert (m_availableByThread r) tid rest,
                               m_usedConnections := finsert name (m_usedConnections r) \<rparr>"
      have "within_cap r1" using r total_dequeue [OF Cons] by (simp add: within_cap_def r1_def)
      moreover have "name |\<in>| m_usedConnections r1" by (simp add: r1_def)
      ultimately have "within_cap (snd (begin_on drv tid name r1))"
        by (simp add: cap_begin_on)
      then show ?thesis using noTx unfold Cons by (simp add: r1_def)
    next
      case Nil
      show ?thesis
      proof (cases "totalConnectionsUnsafe r \<ge> maxConnections r")
        case True
        then show ?thesis using noTx Nil unfold r by simp
      next
        case False
        obtain name p3 where cr: "createConnectionInCurrentThread drv tid r = (name, p3)"
          by (cases "createConnectionInCurrentThread drv tid r") auto
        define r1 where "r1 = (if name \<noteq> []
                            then p3\<lparr> m_connOwner := qh_insert (m_connOwner p3) name tid,
                                     m_usedConnections := finsert name (m_usedConnections p3) \<rparr>
                            else p3)"
        have "within_cap r1"
          using False create_frame(1,2) [OF cr] r
                total_used_insert [of name "p3\<lparr> m_connOwner := qh_insert (m_connOwner p3) name tid \<rparr>"]
          by (auto simp: within_cap_def r1_def)
        moreover have "name = [] \<or> name |\<in>| m_usedConnections r1" by (simp add: r1_def)
        ultimately have "within_cap (snd (begin_on drv tid name r1))"
          by (rule cap_begin_on)
        then show ?thesis using noTx Nil False unfold cr by (simp add: r1_def)
      qed
    qed
  qed
qed

lemma cap_commit: "within_cap p \<Longrightarrow> within_cap (snd (commitThreadTransaction drv tid p))"
  using cap_release [of "p\<lparr> m_activeTxByThread := qh_remove (m_activeTxByThread p) tid,
                            driver_log := driver_log p @ [Commit (qh_value (m_activeTxByThread p) tid [])] \<rparr>"
                        tid "qh_value (m_activeTxByThread p) tid []"]
  by (simp add: commitThreadTransaction_def Let_def within_cap_def)

lemma cap_rollback: "within_cap p \<Longrightarrow> within_cap (snd (rollbackThreadTransaction drv tid p))"
  using cap_release [of "p\<lparr> m_activeTxByThread := qh_remove (m_activeTxByThread p) tid,
                            driver_log := driver_log p @ [Rollback (qh_value (m_activeTxByThread p) tid [])] \<rparr>"
                        tid "qh_value (m_activeTxByThread p) tid []"]
  by (simp add: rollbackThreadTransaction_def Let_def within_cap_def)

lemma cap_run_op: "within_cap p \<Longrightarrow> within_cap (run_op x p)"
  by (cases x)
     (simp_all add: cap_acquire cap_release cap_begin cap_commit cap_rollback cap_forceClose cap_destroyed)

lemma cap_run_ops: "within_cap p \<Longrightarrow> within_cap (run_ops ops p)"
  unfolding run_ops_def
  by (induction ops arbitrary: p) (simp_all add: cap_run_op)

lemma max_cleanup [simp]: "maxConnections (cleanupFinishedThreads p) = maxConnections p"
  using total_fold_sweep [of "stale_tids p" p] by (simp add: cleanupFinishedThreads_def)

lemma max_enqueue [simp]: "maxConnections (enqueue tid name p) = maxConnections p"
  by (simp add: enqueue_def)

lemma max_release [simp]: "maxConnections (releaseConnection tid name p) = maxConnections p"
  by (simp add: releaseConnection_def Let_def)

lemma max_create [simp]:
  "maxConnections (snd (createConnectionInCurrentThread drv tid p)) = maxConnections p"
  by (simp add: createConnectionInCurrentThread_def Let_def)

lemma max_begin_on [simp]: "maxConnections (snd (begin_on drv tid name p)) = maxConnections p"
  by (simp add: begin_on_def Let_def)

lemma max_acquire [simp]: "maxConnections (snd (acquireConnection drv tid p)) = maxConnections p"
  by (auto simp: acquireConnection_def Let_def split: list.splits prod.splits
      dest: create_frame(2))

lemma max_begin [simp]: "maxConnections (snd (beginThreadTransaction drv tid p)) = maxConnections p"
proof -
  have "maxConnections (snd (begin_on drv tid name q)) = maxConnections p"
    if "maxConnections q = maxConnections p" for name q
    using that by simp
  then show ?thesis
    by (auto simp: beginThreadTransaction_def Let_def split: list.splits prod.splits
        dest: create_frame(2))
qed

lemma max_run_op [simp]: "maxConnections (run_op x p) = maxConnections p"
  by (cases x)
     (simp_all add: commitThreadTransaction_def rollbackThreadTransaction_def Let_def
        forceCloseIdleConnections_def QThread_destroyed_def)

lemma max_run_ops [simp]: "maxConnections (run_ops ops p) = maxConnections p"
  unfolding run_ops_def by (induction ops arbitrary: p) simp_all

text \<open>
  The critical sections of a call, run one after the other with nothing in between, are
  the call.
\<close>

lemma begin_sections:
  "beginThreadTransaction drv tid p =
     (case begin_locked drv tid p of
        (BeginReturns r, q) \<Rightarrow> (r, q)
      | (BeginUnlocks name, q) \<Rightarrow>
          (case begin_native drv name q of (began, q') \<Rightarrow> begin_relocked began tid name q'))"
proof -
  have on: "begin_on drv tid name q =
     (case at_unlock name q of
        (BeginReturns r, q1) \<Rightarrow> (r, q1)
      | (BeginUnlocks n, q1) \<Rightarrow>
          (case begin_native drv n q1 of (began, q') \<Rightarrow> begin_relocked began tid n q'))" for name q
    by (simp add: begin_on_def at_unlock_def begin_native_def begin_relocked_def Let_def)
  show ?thesis
    unfolding beginThreadTransaction_def begin_locked_def Let_def on
    by (simp split: list.splits prod.splits)
qed

lemma end_sections:
  "commitThreadTransaction drv tid p =
     (case take_binding tid p of
        (name, q) \<Rightarrow>
          if name = [] then (False, q)
          else (case native (CommitTx drv tid) name q of
                  (ok, q') \<Rightarrow> (ok, resume (CommitTx drv tid) name ok q')))"
  "rollbackThreadTransaction drv tid p =
     (case take_binding tid p of
        (name, q) \<Rightarrow>
          if name = [] then (False, q)
          else (case native (RollbackTx drv tid) name q of
                  (ok, q') \<Rightarrow> (ok, resume (RollbackTx drv tid) name ok q')))"
  by (simp_all add: commitThreadTransaction_def rollbackThreadTransaction_def take_binding_def Let_def)

lemma frames_back:
  "\<not> qh_contains h k \<Longrightarrow> qh_remove (qh_insert (qh_insert h k v) k w) k = h"
  by (simp add: qh_contains_def qh_remove_def qh_insert_def delete_update_same)
     (simp add: qh_remove_absent [unfolded qh_remove_def])

lemma run_whole:
  assumes "\<forall>tid. caller x = Some tid \<longrightarrow> \<not> qh_contains (frames s) tid"
  shows "run_schedule (whole x) s = s\<lparr> pool_state := run_op x (pool_state s) \<rparr>"
proof (cases x)
  case (Begin drv tid)
  then have free: "\<not> qh_contains (frames s) tid" using assms by simp
  show ?thesis
  proof (cases "begin_locked drv tid (pool_state s)")
    case (Pair pr q)
    show ?thesis
    proof (cases pr)
      case (BeginReturns r)
      then show ?thesis
        using Begin Pair free
        by (simp add: run_schedule_def whole_def begin_sections qh_contains_def)
    next
      case (BeginUnlocks name)
      obtain began q' where nat: "begin_native drv name q = (began, q')"
        by (cases "begin_native drv name q") auto
      show ?thesis
        using Begin Pair BeginUnlocks free nat frames_back [OF free]
        by (simp add: run_schedule_def whole_def begin_sections map_of_insert_same)
    qed
  qed
next
  case (CommitTx drv tid)
  then have free: "\<not> qh_contains (frames s) tid" using assms by simp
  show ?thesis
    using CommitTx free frames_back [OF free]
    by (simp add: run_schedule_def whole_def end_sections take_binding_def map_of_insert_same
        qh_contains_def)
next
  case (RollbackTx drv tid)
  then have free: "\<not> qh_contains (frames s) tid" using assms by simp
  show ?thesis
    using RollbackTx free frames_back [OF free]
    by (simp add: run_schedule_def whole_def end_sections take_binding_def map_of_insert_same
        qh_contains_def)
next
  case (Acquire drv tid)
  then show ?thesis using assms by (simp add: run_schedule_def whole_def qh_contains_def)
next
  case (Release tid name)
  then show ?thesis using assms by (simp add: run_schedule_def whole_def qh_contains_def)
next
  case ForceCloseIdle
  then show ?thesis by (simp add: run_schedule_def whole_def)
next
  case (ThreadDestroyed tid)
  then show ?thesis using assms by (simp add: run_schedule_def whole_def qh_contains_def)
qed

lemma serial_schedule:
  assumes "frames s = []"
  shows "run_schedule (concat (map whole ops)) s = s\<lparr> pool_state := run_ops ops (pool_state s) \<rparr>"
  using assms
proof (induction ops arbitrary: s)
  case Nil
  show ?case by (simp add: run_schedule_def run_ops_def)
next
  case (Cons x ops)
  have step: "run_schedule (whole x) s = s\<lparr> pool_state := run_op x (pool_state s) \<rparr>"
    by (rule run_whole) (simp add: Cons.prems qh_contains_def)
  have "run_schedule (concat (map whole (x # ops))) s
        = run_schedule (concat (map whole ops)) (run_schedule (whole x) s)"
    by (simp add: run_schedule_def)
  also have "\<dots> = (s\<lparr> pool_state := run_op x (pool_state s) \<rparr>)
                    \<lparr> pool_state := run_ops ops (run_op x (pool_state s)) \<rparr>"
    using Cons.IH [of "s\<lparr> pool_state := run_op x (pool_state s) \<rparr>"] Cons.prems step by simp
  finally show ?case by (simp add: run_ops_def)
qed

text \<open>
  Calls that do not overlap keep the cap. Whatever calls are made one after the other on
  a pool constructed with a cap \<open>maxc \<ge> 0\<close>, by whatever threads, with whatever arguments
  and driver answers, and whichever thread objects are destroyed in between: the size of
  the in-use set plus the sizes of all idle queues is at most \<open>maxc\<close> after every call.
\<close>

lemma serial_runs_keep_cap:
  assumes "0 \<le> maxc"
  shows "usedCount (run_ops ops (ConnectionPool_new cname maxc))
           + availableCount (run_ops ops (ConnectionPool_new cname maxc)) \<le> maxc"
    and "within_cap (pool_state (run_schedule (concat (map whole ops)) (pool_run_new cname maxc)))"
proof -
  have "within_cap (ConnectionPool_new cname maxc)"
    using assms
    by (simp add: within_cap_def totalConnectionsUnsafe_def ConnectionPool_new_def idle_total_def
        fcard_fempty)
  then have cap: "within_cap (run_ops ops (ConnectionPool_new cname maxc))"
    by (rule cap_run_ops)
  then show "usedCount (run_ops ops (ConnectionPool_new cname maxc))
           + availableCount (run_ops ops (ConnectionPool_new cname maxc)) \<le> maxc"
    by (simp add: within_cap_def totalConnectionsUnsafe_def usedCount_def availableCount_def
        ConnectionPool_new_def)
  show "within_cap (pool_state (run_schedule (concat (map whole ops)) (pool_run_new cname maxc)))"
    using cap by (simp add: serial_schedule pool_run_new_def)
qed

text \<open>
  C1 does not hold when calls overlap. On a pool with a cap of one connection, thread \<open>1\<close>
  acquires the connection \<^verbatim>\<open>db_1_1\<close> and releases it, then calls
  \<^verbatim>\<open>beginThreadTransaction\<close>, which takes \<^verbatim>\<open>db_1_1\<close> from the thread's idle queue, puts
  it in the in-use set and releases the mutex. Thread \<open>2\<close> now calls
  \<^verbatim>\<open>releaseConnection("db_1_1")\<close>: the connection is in use and not bound, so it goes back
  to the idle queue of thread \<open>1\<close>. The driver refuses the transaction, and thread \<open>1\<close>,
  with the mutex again, removes the name from the in-use set, where it no longer is, and
  enqueues it a second time. All calls have returned, the in-use set is empty and the
  idle queue of thread \<open>1\<close> holds \<^verbatim>\<open>db_1_1\<close> twice: the total is 2, the cap 1. With the
  release before or after the whole of \<^verbatim>\<open>beginThreadTransaction\<close> the queue holds the
  connection once.
\<close>

theorem release_inside_begin_exceeds_cap:
  "m_availableByThread (pool_state (run_schedule release_in_window (pool_run_new ''db'' 1)))
     = [(''1'', [''db_1_1'', ''db_1_1''])]
   \<and> frames (run_schedule release_in_window (pool_run_new ''db'' 1)) = []
   \<and> usedCount (pool_state (run_schedule release_in_window (pool_run_new ''db'' 1))) = 0
   \<and> availableCount (pool_state (run_schedule release_in_window (pool_run_new ''db'' 1))) = 2
   \<and> maxConnections (pool_state (run_schedule release_in_window (pool_run_new ''db'' 1))) = 1
   \<and> \<not> within_cap (pool_state (run_schedule release_in_window (pool_run_new ''db'' 1)))
   \<and> m_availableByThread (run_ops release_first (ConnectionPool_new ''db'' 1))
       = [(''1'', [''db_1_1''])]
   \<and> m_availableByThread (run_ops release_last (ConnectionPool_new ''db'' 1))
       = [(''1'', [''db_1_1''])]"
  by code_simp

section \<open>The stale-thread sweep\<close>

lemma drop_keys_Nil [simp]: "drop_keys [] h = h"
  by (simp add: drop_keys_def)

lemma drop_keys_Cons: "drop_keys (k # ks) h = drop_keys ks (qh_remove h k)"
  by (induction h) (auto simp: drop_keys_def qh_remove_def)

lemma fold_sweep_fields:
  "m_threadRefs (fold sweep_thread ts p) = drop_keys ts (m_threadRefs p)
   \<and> m_availableByThread (fold sweep_thread ts p) = drop_keys ts (m_availableByThread p)
   \<and> m_activeTxByThread (fold sweep_thread ts p) = drop_keys ts (m_activeTxByThread p)
   \<and> m_usedConnections (fold sweep_thread ts p) = m_usedConnections p
   \<and> m_connOwner (fold sweep_thread ts p) = m_connOwner p
   \<and> m_connectionCounter (fold sweep_thread ts p) = m_connectionCounter p
   \<and> connectionName (fold sweep_thread ts p) = connectionName p"
proof (induction ts arbitrary: p)
  case Nil
  show ?case by simp
next
  case (Cons t ts)
  show ?case
    using Cons [of "sweep_thread t p"]
    by (simp add: drop_keys_Cons) (simp add: sweep_thread_def)
qed

lemma cleanup_fields:
  "m_threadRefs (cleanupFinishedThreads p) = drop_keys (stale_tids p) (m_threadRefs p)"
  "m_availableByThread (cleanupFinishedThreads p) = drop_keys (stale_tids p) (m_availableByThread p)"
  "m_activeTxByThread (cleanupFinishedThreads p) = drop_keys (stale_tids p) (m_activeTxByThread p)"
  "m_usedConnections (cleanupFinishedThreads p) = m_usedConnections p"
  "m_connOwner (cleanupFinishedThreads p) = m_connOwner p"
  "m_connectionCounter (cleanupFinishedThreads p) = m_connectionCounter p"
  "connectionName (cleanupFinishedThreads p) = connectionName p"
  using fold_sweep_fields [of "stale_tids p" p]
  by (simp_all add: cleanupFinishedThreads_def)

lemma cleanup_no_stale: "stale_tids p = [] \<Longrightarrow> cleanupFinishedThreads p = p"
  by (simp add: cleanupFinishedThreads_def)

lemma stale_after_cleanup [simp]: "stale_tids (cleanupFinishedThreads p) = []"
  by (auto simp: stale_tids_def cleanup_fields drop_keys_def filter_empty_conv)

lemma cleanup_idem [simp]:
  "cleanupFinishedThreads (cleanupFinishedThreads p) = cleanupFinishedThreads p"
  by (simp add: cleanup_no_stale)

lemma map_of_drop_keys:
  "map_of (drop_keys ks h) k = (if k \<in> set ks then None else map_of h k)"
  by (induction h) (auto simp: drop_keys_def)

lemma stale_insert_alive:
  assumes "stale_tids p = []"
  shows "stale_tids (p\<lparr> m_threadRefs := qh_insert (m_threadRefs p) tid Alive \<rparr>) = []"
proof -
  have "filter (\<lambda>kv. snd kv = Expired) (AList.update k Alive h) = []"
    if "filter (\<lambda>kv. snd kv = Expired) h = []" for h :: "(QString, QPointer) QHash" and k
    using that by (induction h) (auto split: if_splits)
  then show ?thesis
    using assms by (simp add: stale_tids_def qh_insert_def)
qed

lemma acquire_refs:
  "m_threadRefs (snd (acquireConnection drv tid p))
     = qh_insert (m_threadRefs (cleanupFinishedThreads p)) tid Alive"
  by (auto simp: acquireConnection_def Let_def split: list.splits prod.splits
      dest: create_frame(7))

lemma release_refs:
  "m_threadRefs (releaseConnection tid name p) = m_threadRefs (cleanupFinishedThreads p)"
  by (simp add: releaseConnection_def Let_def enqueue_def)

lemma stale_tids_cong: "m_threadRefs p = m_threadRefs q \<Longrightarrow> stale_tids p = stale_tids q"
  by (simp add: stale_tids_def)

lemma stale_after_acquire: "stale_tids (snd (acquireConnection drv tid p)) = []"
proof -
  have "stale_tids (snd (acquireConnection drv tid p))
        = stale_tids ((cleanupFinishedThreads p)\<lparr> m_threadRefs :=
            qh_insert (m_threadRefs (cleanupFinishedThreads p)) tid Alive \<rparr>)"
    by (rule stale_tids_cong) (simp add: acquire_refs)
  then show ?thesis by (simp add: stale_insert_alive)
qed

lemma stale_after_release: "stale_tids (releaseConnection tid name p) = []"
proof -
  have "stale_tids (releaseConnection tid name p) = stale_tids (cleanupFinishedThreads p)"
    by (rule stale_tids_cong) (simp add: release_refs)
  then show ?thesis by simp
qed










section \<open>Transaction affinity\<close>

lemma begin_on_success:
  assumes "begin_on drv tid n q = (name, p1)" and "name \<noteq> []"
  shows "name = n \<and> p1 = q\<lparr> driver_log := driver_log q @ [Transaction n],
                             m_activeTxByThread := qh_insert (m_activeTxByThread q) tid n \<rparr>"
  using assms by (auto simp: begin_on_def Let_def split: if_splits)

lemma begin_success_binding:
  assumes "beginThreadTransaction drv tid p = (name, p1)" and "name \<noteq> []"
  shows "map_of (m_activeTxByThread p1) tid = Some name"
proof (cases "qh_contains (m_activeTxByThread p) tid")
  case True
  then show ?thesis using assms
    by (auto simp: beginThreadTransaction_def qh_contains_def qh_value_def)
next
  case False
  have "map_of (m_activeTxByThread p1) tid = Some name"
    if "begin_on drv tid n q = (name, p1)" for n q
    using begin_on_success [OF that assms(2)] by (simp add: map_of_insert_same)
  then show ?thesis using assms False
    by (auto simp: beginThreadTransaction_def Let_def split: list.splits prod.splits if_splits)
qed

lemma begin_again:
  assumes "map_of (m_activeTxByThread p) tid = Some name"
  shows "beginThreadTransaction drv tid p = (name, p)"
  using assms by (simp add: beginThreadTransaction_def qh_contains_def qh_value_def)

lemma acquire_bound:
  assumes "map_of (m_activeTxByThread p) tid = Some name" and "tid \<notin> set (stale_tids p)"
  shows "acquireConnection drv tid p =
           (name, (cleanupFinishedThreads p)\<lparr> m_threadRefs :=
                     qh_insert (m_threadRefs (cleanupFinishedThreads p)) tid Alive \<rparr>)"
  using assms
  by (simp add: acquireConnection_def Let_def qh_contains_def qh_value_def cleanup_fields
      map_of_drop_keys)

lemma acquire_activeTx:
  "m_activeTxByThread (snd (acquireConnection drv t p)) = m_activeTxByThread (cleanupFinishedThreads p)"
  by (auto simp: acquireConnection_def Let_def split: list.splits prod.splits
      dest: create_frame(5))

lemma release_activeTx:
  "m_activeTxByThread (releaseConnection t n p) = m_activeTxByThread (cleanupFinishedThreads p)"
  by (simp add: releaseConnection_def Let_def enqueue_def)

lemma begin_on_fields:
  "m_threadRefs (snd (begin_on drv t n p)) = m_threadRefs p"
  "t \<noteq> tid \<Longrightarrow> map_of (m_activeTxByThread (snd (begin_on drv t n p))) tid
                      = map_of (m_activeTxByThread p) tid"
  by (simp_all add: begin_on_def Let_def enqueue_def map_of_qh_insert)

lemma begin_refs: "m_threadRefs (snd (beginThreadTransaction drv t p)) = m_threadRefs p"
proof -
  have "m_threadRefs (snd (begin_on drv t n q)) = m_threadRefs p"
    if "m_threadRefs q = m_threadRefs p" for n q
    using that by (simp add: begin_on_fields)
  then show ?thesis
    by (auto simp: beginThreadTransaction_def Let_def split: list.splits prod.splits
        dest: create_frame(7))
qed

lemma begin_keeps_binding:
  assumes "map_of (m_activeTxByThread p) tid = Some name"
  shows "map_of (m_activeTxByThread (snd (beginThreadTransaction drv t p))) tid = Some name"
proof (cases "t = tid")
  case True
  then show ?thesis using assms by (simp add: begin_again)
next
  case False
  have "map_of (m_activeTxByThread (snd (begin_on drv t n q))) tid = Some name"
    if "m_activeTxByThread q = m_activeTxByThread p" for n q
    using that assms False by (simp add: begin_on_fields)
  then show ?thesis
    using assms
    by (auto simp: beginThreadTransaction_def Let_def split: list.splits prod.splits
        dest: create_frame(5))
qed

lemma holds_cleanup:
  "holds_binding tid name p \<Longrightarrow> holds_binding tid name (cleanupFinishedThreads p)"
  by (simp add: holds_binding_def cleanup_fields map_of_drop_keys)

lemma holds_acquire:
  assumes "holds_binding tid name p"
  shows "holds_binding tid name (snd (acquireConnection drv t p))"
  using holds_cleanup [OF assms]
  by (simp add: holds_binding_def acquire_activeTx stale_after_acquire)

lemma holds_release:
  assumes "holds_binding tid name p"
  shows "holds_binding tid name (releaseConnection t n p)"
  using holds_cleanup [OF assms]
  by (simp add: holds_binding_def release_activeTx stale_after_release)

lemma holds_begin:
  assumes "holds_binding tid name p"
  shows "holds_binding tid name (snd (beginThreadTransaction drv t p))"
proof -
  have "stale_tids (snd (beginThreadTransaction drv t p)) = stale_tids p"
    by (rule stale_tids_cong) (rule begin_refs)
  then show ?thesis
    using assms by (simp add: holds_binding_def begin_keeps_binding)
qed

lemma holds_unbind_other:
  assumes "holds_binding tid name p" and "t \<noteq> tid"
  shows "holds_binding tid name
           (p\<lparr> m_activeTxByThread := qh_remove (m_activeTxByThread p) t, driver_log := l \<rparr>)"
  using assms by (simp add: holds_binding_def map_of_qh_remove stale_tids_def)

lemma holds_commit:
  assumes "holds_binding tid name p" and "t \<noteq> tid"
  shows "holds_binding tid name (snd (commitThreadTransaction drv t p))"
    and "holds_binding tid name (snd (rollbackThreadTransaction drv t p))"
  using holds_unbind_other [OF assms] holds_release [OF holds_unbind_other [OF assms]]
        holds_unbind_other [OF assms, of "driver_log p"]
  by (simp_all add: commitThreadTransaction_def rollbackThreadTransaction_def Let_def)

lemma holds_forceClose:
  "holds_binding tid name p \<Longrightarrow> holds_binding tid name (snd (forceCloseIdleConnections p))"
  by (simp add: holds_binding_def forceCloseIdleConnections_def stale_tids_def)

lemma holds_destroyed:
  assumes "holds_binding tid name p" and "t \<noteq> tid"
  shows "holds_binding tid name (QThread_destroyed t p)"
proof -
  have "tid \<in> fst ` set (filter (\<lambda>kv. snd kv = Expired) h)"
    if "tid \<in> fst ` set (filter (\<lambda>kv. snd kv = Expired)
                          (map (\<lambda>kv. if fst kv = t then (fst kv, Expired) else kv) h))"
    for h :: "(QString, QPointer) QHash"
    using that assms(2) by (induction h) (auto split: if_splits)
  then show ?thesis
    using assms(1) by (auto simp: holds_binding_def QThread_destroyed_def stale_tids_def)
qed

lemma holds_run_op:
  assumes "holds_binding tid name p" and "\<not> ends_or_expires tid x"
  shows "holds_binding tid name (run_op x p)"
  using assms
  by (cases x)
     (simp_all add: holds_acquire holds_release holds_begin holds_commit holds_forceClose
        holds_destroyed)

lemma holds_run_ops:
  assumes "holds_binding tid name p" and "\<forall>x \<in> set ops. \<not> ends_or_expires tid x"
  shows "holds_binding tid name (run_ops ops p)"
  using assms unfolding run_ops_def
  by (induction ops arbitrary: p) (simp_all add: holds_run_op)

text \<open>
  C2, as the code has it. After a successful \<^verbatim>\<open>beginThreadTransaction\<close> by \<open>tid\<close>, a
  further \<^verbatim>\<open>beginThreadTransaction\<close> by \<open>tid\<close> returns the bound name and changes nothing.
  When the liveness reference of \<open>tid\<close> has not expired, the same holds after any calls
  \<open>ops\<close> other than a commit or rollback by \<open>tid\<close> and the destruction of its thread
  object, and an \<^verbatim>\<open>acquireConnection\<close> by \<open>tid\<close> then returns the bound name, keeps the
  binding and the in-use set, and leaves of the idle queues what the sweep leaves: all of
  them when no reference has expired.
\<close>

theorem transaction_affinity:
  assumes "beginThreadTransaction drv tid p0 = (name, p1)" and "name \<noteq> []"
  shows "beginThreadTransaction drv' tid p1 = (name, p1)
         \<and> (tid \<notin> set (stale_tids p1) \<and> list_all (\<lambda>x. \<not> ends_or_expires tid x) ops \<longrightarrow>
              beginThreadTransaction drv' tid (run_ops ops p1) = (name, run_ops ops p1)
              \<and> fst (acquireConnection drv' tid (run_ops ops p1)) = name
              \<and> m_usedConnections (snd (acquireConnection drv' tid (run_ops ops p1)))
                  = m_usedConnections (run_ops ops p1)
              \<and> m_availableByThread (snd (acquireConnection drv' tid (run_ops ops p1)))
                  = drop_keys (stale_tids (run_ops ops p1)) (m_availableByThread (run_ops ops p1))
              \<and> (stale_tids (run_ops ops p1) = [] \<longrightarrow>
                    m_availableByThread (snd (acquireConnection drv' tid (run_ops ops p1)))
                      = m_availableByThread (run_ops ops p1))
              \<and> holds_binding tid name (snd (acquireConnection drv' tid (run_ops ops p1))))"
proof -
  have bound: "map_of (m_activeTxByThread p1) tid = Some name"
    using assms by (rule begin_success_binding)
  have 1: "beginThreadTransaction drv' tid p1 = (name, p1)"
    using bound by (rule begin_again)
  have 2: "beginThreadTransaction drv' tid (run_ops ops p1) = (name, run_ops ops p1)
              \<and> fst (acquireConnection drv' tid (run_ops ops p1)) = name
              \<and> m_usedConnections (snd (acquireConnection drv' tid (run_ops ops p1)))
                  = m_usedConnections (run_ops ops p1)
              \<and> m_availableByThread (snd (acquireConnection drv' tid (run_ops ops p1)))
                  = drop_keys (stale_tids (run_ops ops p1)) (m_availableByThread (run_ops ops p1))
              \<and> (stale_tids (run_ops ops p1) = [] \<longrightarrow>
                    m_availableByThread (snd (acquireConnection drv' tid (run_ops ops p1)))
                      = m_availableByThread (run_ops ops p1))
              \<and> holds_binding tid name (snd (acquireConnection drv' tid (run_ops ops p1)))"
    if live: "tid \<notin> set (stale_tids p1)" and ops: "list_all (\<lambda>x. \<not> ends_or_expires tid x) ops"
  proof -
    define p where "p = run_ops ops p1"
    have "holds_binding tid name p1" using bound live by (simp add: holds_binding_def)
    then have h: "holds_binding tid name p"
      unfolding p_def using ops by (intro holds_run_ops) (simp_all add: list_all_iff)
    then have b: "map_of (m_activeTxByThread p) tid = Some name" and l: "tid \<notin> set (stale_tids p)"
      by (simp_all add: holds_binding_def)
    have a: "acquireConnection drv' tid p =
           (name, (cleanupFinishedThreads p)\<lparr> m_threadRefs :=
                     qh_insert (m_threadRefs (cleanupFinishedThreads p)) tid Alive \<rparr>)"
      using b l by (rule acquire_bound)
    have "beginThreadTransaction drv' tid p = (name, p)" using b by (rule begin_again)
    moreover have "fst (acquireConnection drv' tid p) = name" by (simp add: a)
    moreover have "m_usedConnections (snd (acquireConnection drv' tid p)) = m_usedConnections p"
      by (simp add: a cleanup_fields)
    moreover have av: "m_availableByThread (snd (acquireConnection drv' tid p))
                  = drop_keys (stale_tids p) (m_availableByThread p)"
      by (simp add: a cleanup_fields)
    moreover have "stale_tids p = [] \<longrightarrow>
                    m_availableByThread (snd (acquireConnection drv' tid p)) = m_availableByThread p"
      using av by simp
    moreover have "holds_binding tid name (snd (acquireConnection drv' tid p))"
      using h by (rule holds_acquire)
    ultimately show ?thesis unfolding p_def by blast
  qed
  show ?thesis using 1 2 by blast
qed

theorem transaction_affinity_witness:
  "beginThreadTransaction drv_ok ''2'' stale_example
     = (''db_2_2'', snd (beginThreadTransaction drv_ok ''2'' stale_example))
   \<and> ''db_2_2'' \<noteq> []
   \<and> ''2'' \<notin> set (stale_tids (snd (beginThreadTransaction drv_ok ''2'' stale_example)))
   \<and> list_all (\<lambda>x. \<not> ends_or_expires ''2'' x) affinity_ops
   \<and> fst (acquireConnection drv_fail ''2''
             (run_ops affinity_ops (snd (beginThreadTransaction drv_ok ''2'' stale_example))))
       = ''db_2_2''
   \<and> fst (beginThreadTransaction drv_fail ''2''
             (run_ops affinity_ops (snd (beginThreadTransaction drv_ok ''2'' stale_example))))
       = ''db_2_2''"
proof -
  have b: "beginThreadTransaction drv_ok ''2'' stale_example
     = (''db_2_2'', snd (beginThreadTransaction drv_ok ''2'' stale_example))"
    by code_simp
  have n: "''db_2_2'' \<noteq> []" by simp
  have s: "''2'' \<notin> set (stale_tids (snd (beginThreadTransaction drv_ok ''2'' stale_example)))"
    by code_simp
  have o: "list_all (\<lambda>x. \<not> ends_or_expires ''2'' x) affinity_ops"
    by (simp add: affinity_ops_def)
  note t = transaction_affinity [OF b n, of drv_fail affinity_ops]
  have 1: "fst (acquireConnection drv_fail ''2''
             (run_ops affinity_ops (snd (beginThreadTransaction drv_ok ''2'' stale_example))))
       = ''db_2_2''"
    using s o t by blast
  have "beginThreadTransaction drv_fail ''2''
             (run_ops affinity_ops (snd (beginThreadTransaction drv_ok ''2'' stale_example)))
       = (''db_2_2'', run_ops affinity_ops (snd (beginThreadTransaction drv_ok ''2'' stale_example)))"
    using s o t by blast
  then have 2: "fst (beginThreadTransaction drv_fail ''2''
             (run_ops affinity_ops (snd (beginThreadTransaction drv_ok ''2'' stale_example))))
       = ''db_2_2''"
    by simp
  show ?thesis
    by (intro conjI b n s o 1 2)
qed

text \<open>
  C2, as stated, fails on the idle queues: thread \<open>2\<close> is inside a transaction, thread
  \<open>1\<close> has expired with one idle connection; \<^verbatim>\<open>acquireConnection\<close> by thread \<open>2\<close> returns
  the bound name and drops the queue of thread \<open>1\<close>.
\<close>

theorem acquire_in_transaction_sweeps_counterexample:
  "fst (beginThreadTransaction drv_ok ''2'' stale_example) = ''db_2_2''
   \<and> m_availableByThread (snd (beginThreadTransaction drv_ok ''2'' stale_example))
       = [(''1'', [''db_1_1'']), (''2'', [])]
   \<and> fst (acquireConnection drv_ok ''2'' (snd (beginThreadTransaction drv_ok ''2'' stale_example)))
       = ''db_2_2''
   \<and> m_availableByThread
        (snd (acquireConnection drv_ok ''2'' (snd (beginThreadTransaction drv_ok ''2'' stale_example))))
       = [(''2'', [])]
   \<and> m_availableByThread
        (snd (acquireConnection drv_ok ''2'' (snd (beginThreadTransaction drv_ok ''2'' stale_example))))
       \<noteq> m_availableByThread (snd (beginThreadTransaction drv_ok ''2'' stale_example))"
  by code_simp

text \<open>
  Not covered by the two theorems above: a thread at the address of the expired thread
  \<open>1\<close> begins a transaction, which does not sweep. It is given the connection the expired
  thread left idle; its
  liveness reference stays expired, so its next \<^verbatim>\<open>acquireConnection\<close> sweeps its binding
  away and creates another connection.
\<close>

lemma begin_at_reused_address_example:
  "stale_tids stale_example = [''1'']
   \<and> fst (beginThreadTransaction drv_ok ''1'' stale_example) = ''db_1_1''
   \<and> stale_tids (snd (beginThreadTransaction drv_ok ''1'' stale_example)) = [''1'']
   \<and> fst (acquireConnection drv_ok ''1'' (snd (beginThreadTransaction drv_ok ''1'' stale_example)))
       = ''db_1_2''
   \<and> m_activeTxByThread
        (snd (acquireConnection drv_ok ''1'' (snd (beginThreadTransaction drv_ok ''1'' stale_example))))
       = []"
  by code_simp

section \<open>Well-formed pools\<close>

lemma digit_char: "d < 10 \<Longrightarrow> (of_char (char_of (48 + d :: nat)) :: nat) = 48 + d"
  by simp

lemma digits_value_snoc:
  "digits_value (s @ [c]) = 10 * digits_value s + (of_char c - 48)"
  by (simp add: digits_value_def)

lemma digits_small: "n < 10 \<Longrightarrow> digits n = [char_of (48 + n)]"
  by (subst digits.simps) simp

lemma digits_large: "\<not> n < 10 \<Longrightarrow> digits n = digits (n div 10) @ [char_of (48 + n mod 10)]"
  by (subst digits.simps) simp

lemma digits_value_digits: "digits_value (digits n) = n"
proof (induction n rule: digits.induct)
  case (1 n)
  show ?case
  proof (cases "n < 10")
    case True
    then show ?thesis
      using digits_value_snoc [of "[]" "char_of (48 + n)"]
      by (simp add: digits_small digits_value_def)
  next
    case False
    then have ih: "digits_value (digits (n div 10)) = n div 10" using 1 by simp
    have "(of_char (char_of (48 + n mod 10)) :: nat) = 48 + n mod 10"
      by (rule digit_char) simp
    then have "digits_value (digits (n div 10) @ [char_of (48 + n mod 10)])
                 = 10 * (n div 10) + n mod 10"
      unfolding digits_value_snoc ih by simp
    moreover have "digits n = digits (n div 10) @ [char_of (48 + n mod 10)]"
      using False by (rule digits_large)
    ultimately show ?thesis by simp
  qed
qed

lemma digits_inj: "digits n = digits m \<Longrightarrow> n = m"
  by (metis digits_value_digits)

lemma digits_no_underscore: "CHR ''_'' \<notin> set (digits n)"
proof (induction n rule: digits.induct)
  case (1 n)
  have neq: "char_of (48 + d :: nat) \<noteq> CHR ''_''" if "d < 10" for d
  proof
    assume "char_of (48 + d) = CHR ''_''"
    then have "(of_char (char_of (48 + d)) :: nat) = of_char CHR ''_''" by simp
    then show False using that by simp
  qed
  show ?case
  proof (cases "n < 10")
    case True
    then show ?thesis using neq [of n] by (simp add: digits_small)
  next
    case False
    then show ?thesis using 1 neq [of "n mod 10"] by (simp add: digits_large)
  qed
qed

lemma conn_name_counter:
  assumes "conn_name pre t c = conn_name pre' t' c'" and "0 \<le> c" and "0 \<le> c'"
  shows "c = c'"
proof -
  have suffix: "takeWhile (\<lambda>x. x \<noteq> CHR ''_'') (rev (conn_name q u i)) = rev (digits (nat i))"
    if "0 \<le> i" for q u i
    using that digits_no_underscore [of "nat i"]
    by (simp add: conn_name_def QString_number_def takeWhile_append)
  have "rev (digits (nat c)) = rev (digits (nat c'))"
    using suffix [OF assms(2), of pre t] suffix [OF assms(3), of pre' t'] assms(1) by simp
  then have "digits (nat c) = digits (nat c')" by simp
  then have "nat c = nat c'" by (rule digits_inj)
  then show ?thesis using assms by simp
qed

lemma conn_name_nonempty [simp]: "conn_name pre t c \<noteq> []"
  by (simp add: conn_name_def)

lemma pool_inv_cong:
  assumes "m_activeTxByThread q = m_activeTxByThread p" "m_availableByThread q = m_availableByThread p"
    "m_usedConnections q = m_usedConnections p" "m_connOwner q = m_connOwner p"
    "m_connectionCounter q = m_connectionCounter p" "connectionName q = connectionName p"
  shows "pool_inv q = pool_inv p"
  using assms by (simp add: pool_inv_def bound_ok_def idle_ok_def used_ok_def names_ok_def)

lemma inv_new: "pool_inv (ConnectionPool_new cname maxc)"
  by (simp add: pool_inv_def bound_ok_def idle_ok_def used_ok_def names_ok_def ConnectionPool_new_def)

lemma inv_cleanup: "pool_inv p \<Longrightarrow> pool_inv (cleanupFinishedThreads p)"
  by (auto simp: pool_inv_def bound_ok_def idle_ok_def used_ok_def names_ok_def cleanup_fields
      map_of_drop_keys split: if_splits)

lemma inv_destroyed: "pool_inv p \<Longrightarrow> pool_inv (QThread_destroyed tid p)"
  using pool_inv_cong [of "QThread_destroyed tid p" p] by (simp add: QThread_destroyed_def)

lemma bound_ok_cong:
  "m_activeTxByThread q = m_activeTxByThread p \<Longrightarrow> m_usedConnections q = m_usedConnections p \<Longrightarrow>
   m_connOwner q = m_connOwner p \<Longrightarrow> bound_ok q = bound_ok p"
  by (simp only: bound_ok_def)

lemma idle_ok_cong:
  "m_availableByThread q = m_availableByThread p \<Longrightarrow> m_connOwner q = m_connOwner p \<Longrightarrow>
   idle_ok q = idle_ok p"
  by (simp only: idle_ok_def)

lemma used_ok_cong:
  "m_usedConnections q = m_usedConnections p \<Longrightarrow> m_connOwner q = m_connOwner p \<Longrightarrow>
   used_ok q = used_ok p"
  by (simp only: used_ok_def)

lemma names_ok_cong:
  "m_connOwner q = m_connOwner p \<Longrightarrow> m_connectionCounter q = m_connectionCounter p \<Longrightarrow>
   connectionName q = connectionName p \<Longrightarrow> names_ok q = names_ok p"
  by (simp only: names_ok_def)

lemma names_ok_mono:
  assumes "names_ok p" and "m_connOwner q = m_connOwner p" and "connectionName q = connectionName p"
    and "m_connectionCounter p \<le> m_connectionCounter q"
  shows "names_ok q"
  unfolding names_ok_def
proof (intro conjI allI impI)
  show "0 \<le> m_connectionCounter q" using assms by (simp add: names_ok_def)
next
  fix n t
  assume "map_of (m_connOwner q) n = Some t"
  then obtain c where "0 \<le> c" "c \<le> m_connectionCounter p" "n = conn_name (connectionName p) t c"
    using assms(1,2) unfolding names_ok_def by auto
  then show "\<exists>c\<ge>0. c \<le> m_connectionCounter q \<and> n = conn_name (connectionName q) t c"
    using assms(3,4) by (intro exI [of _ c]) simp
qed

lemma inv_index:
  assumes "pool_inv p"
  shows "pool_inv (p\<lparr> m_availableByThread := qh_index (m_availableByThread p) tid [] \<rparr>)"
proof -
  let ?q = "p\<lparr> m_availableByThread := qh_index (m_availableByThread p) tid [] \<rparr>"
  have "idle_ok ?q"
    using assms unfolding pool_inv_def idle_ok_def
    by (auto simp: map_of_qh_index split: if_splits)
  moreover have "bound_ok ?q = bound_ok p" by (rule bound_ok_cong) simp_all
  moreover have "used_ok ?q = used_ok p" by (rule used_ok_cong) simp_all
  moreover have "names_ok ?q = names_ok p" by (rule names_ok_cong) simp_all
  ultimately show ?thesis using assms by (simp add: pool_inv_def)
qed

lemma inv_dequeue:
  assumes "pool_inv p" and "qh_value (m_availableByThread p) tid [] = name # rest"
  shows "pool_inv (p\<lparr> m_availableByThread := qh_insert (m_availableByThread p) tid rest,
                      m_usedConnections := finsert name (m_usedConnections p) \<rparr>)"
    and "name \<noteq> []" and "map_of (m_connOwner p) name = Some tid"
proof -
  have q: "map_of (m_availableByThread p) tid = Some (name # rest)"
    using assms(2) by (rule qh_value_Cons_map_of)
  then have all: "\<forall>n \<in> set (name # rest). n \<noteq> [] \<and> map_of (m_connOwner p) n = Some tid"
    using assms(1) unfolding pool_inv_def idle_ok_def by blast
  then show "name \<noteq> []" and "map_of (m_connOwner p) name = Some tid" by simp_all
  let ?q = "p\<lparr> m_availableByThread := qh_insert (m_availableByThread p) tid rest,
                m_usedConnections := finsert name (m_usedConnections p) \<rparr>"
  have "idle_ok ?q"
    using assms(1) all unfolding pool_inv_def idle_ok_def
    by (auto simp: map_of_qh_insert split: if_splits)
  moreover have "bound_ok ?q"
    using assms(1) unfolding pool_inv_def bound_ok_def by auto
  moreover have "used_ok ?q"
    using assms(1) all unfolding pool_inv_def used_ok_def by auto
  moreover have "names_ok ?q = names_ok p" by (rule names_ok_cong) simp_all
  ultimately show "pool_inv ?q" using assms(1) by (simp add: pool_inv_def)
qed

lemma fresh_name:
  assumes "names_ok p"
  shows "map_of (m_connOwner p) (conn_name (connectionName p) tid (m_connectionCounter p + 1)) = None"
proof (rule ccontr)
  assume "map_of (m_connOwner p) (conn_name (connectionName p) tid (m_connectionCounter p + 1)) \<noteq> None"
  then obtain t where
    "map_of (m_connOwner p) (conn_name (connectionName p) tid (m_connectionCounter p + 1)) = Some t"
    by auto
  then obtain c where c: "0 \<le> c" "c \<le> m_connectionCounter p"
      "conn_name (connectionName p) tid (m_connectionCounter p + 1) = conn_name (connectionName p) t c"
    using assms unfolding names_ok_def by blast
  have "m_connectionCounter p + 1 = c"
    using conn_name_counter [OF c(3)] c(1) assms by (simp add: names_ok_def)
  then show False using c(2) by simp
qed

lemma create_result:
  assumes "createConnectionInCurrentThread drv tid p = (name, p3)"
  shows "m_connectionCounter p3 = m_connectionCounter p + 1"
    and "connectionName p3 = connectionName p"
    and "name = [] \<or> name = conn_name (connectionName p) tid (m_connectionCounter p + 1)"
    and "open_ok drv \<Longrightarrow> name = conn_name (connectionName p) tid (m_connectionCounter p + 1)"
    and "\<not> open_ok drv \<Longrightarrow> name = []"
  using assms
  by (auto simp: createConnectionInCurrentThread_def Let_def split: if_splits)

lemma inv_create_failed:
  assumes "pool_inv p" and "createConnectionInCurrentThread drv tid p = (name, p3)"
  shows "pool_inv p3"
proof -
  note fr = create_frame [OF assms(2)] create_result(1,2) [OF assms(2)]
  have "names_ok p" using assms(1) by (simp add: pool_inv_def)
  then have "names_ok p3"
    by (rule names_ok_mono) (simp_all add: fr)
  moreover have "bound_ok p3 = bound_ok p" by (rule bound_ok_cong) (simp_all add: fr)
  moreover have "used_ok p3 = used_ok p" by (rule used_ok_cong) (simp_all add: fr)
  moreover have "idle_ok p3 = idle_ok p" by (rule idle_ok_cong) (simp_all add: fr)
  ultimately show ?thesis using assms(1) by (simp add: pool_inv_def)
qed

lemma inv_add_owner:
  assumes "pool_inv p" and "map_of (m_connOwner p) n = None" and "n \<noteq> []"
    and "n = conn_name (connectionName p) tid c" and "0 \<le> c" and "c \<le> m_connectionCounter p"
  shows "pool_inv (p\<lparr> m_connOwner := qh_insert (m_connOwner p) n tid,
                      m_usedConnections := finsert n (m_usedConnections p) \<rparr>)"
proof -
  let ?q = "p\<lparr> m_connOwner := qh_insert (m_connOwner p) n tid,
               m_usedConnections := finsert n (m_usedConnections p) \<rparr>"
  have b: "bound_ok ?q"
    using assms(1,2) unfolding pool_inv_def bound_ok_def
    by (auto simp: map_of_qh_insert)
  have i: "idle_ok ?q"
    using assms(1,2) unfolding pool_inv_def idle_ok_def
    by (auto simp: map_of_qh_insert)
  have u: "used_ok ?q"
    using assms(1,2,3) unfolding pool_inv_def used_ok_def
    by (auto simp: map_of_qh_insert)
  have k: "names_ok ?q"
    unfolding names_ok_def
  proof (intro conjI allI impI)
    show "0 \<le> m_connectionCounter ?q"
      using assms(1) by (simp add: pool_inv_def names_ok_def)
  next
    fix x t
    assume "map_of (m_connOwner ?q) x = Some t"
    then have cases: "(x = n \<and> t = tid) \<or> map_of (m_connOwner p) x = Some t"
      by (auto simp: map_of_qh_insert split: if_splits)
    then show "\<exists>c\<ge>0. c \<le> m_connectionCounter ?q \<and> x = conn_name (connectionName ?q) t c"
    proof
      assume "x = n \<and> t = tid"
      then show ?thesis
        using assms(4,5,6) by (intro exI [of _ c]) simp
    next
      assume "map_of (m_connOwner p) x = Some t"
      then obtain c' where "0 \<le> c'" "c' \<le> m_connectionCounter p" "x = conn_name (connectionName p) t c'"
        using assms(1) unfolding pool_inv_def names_ok_def by blast
      then show ?thesis
        by (intro exI [of _ c']) simp
    qed
  qed
  show ?thesis using b i u k by (simp add: pool_inv_def)
qed

lemma inv_create:
  assumes "pool_inv p" and "createConnectionInCurrentThread drv tid p = (name, p3)"
  shows "pool_inv (if name \<noteq> []
                   then p3\<lparr> m_connOwner := qh_insert (m_connOwner p3) name tid,
                            m_usedConnections := finsert name (m_usedConnections p3) \<rparr>
                   else p3)"
proof (cases "name = []")
  case True
  then show ?thesis using inv_create_failed [OF assms] by simp
next
  case False
  note fr = create_frame [OF assms(2)] create_result(1,2) [OF assms(2)]
  have nm: "name = conn_name (connectionName p3) tid (m_connectionCounter p3)"
    using False create_result(3) [OF assms(2)] by (simp add: fr)
  have p3: "pool_inv p3" using assms by (rule inv_create_failed)
  have "map_of (m_connOwner p) (conn_name (connectionName p) tid (m_connectionCounter p + 1)) = None"
    using assms(1) by (simp add: fresh_name pool_inv_def)
  then have fresh: "map_of (m_connOwner p3) name = None"
    using nm by (simp add: fr)
  have "0 \<le> m_connectionCounter p3" using p3 by (simp add: pool_inv_def names_ok_def)
  then have "pool_inv (p3\<lparr> m_connOwner := qh_insert (m_connOwner p3) name tid,
                            m_usedConnections := finsert name (m_usedConnections p3) \<rparr>)"
    using inv_add_owner [OF p3 fresh False nm] by simp
  then show ?thesis using False by simp
qed

lemma inv_log [simp]: "pool_inv (p\<lparr> driver_log := l \<rparr>) = pool_inv p"
  by (rule pool_inv_cong) simp_all

lemma inv_refs [simp]: "pool_inv (p\<lparr> m_threadRefs := r \<rparr>) = pool_inv p"
  by (rule pool_inv_cong) simp_all

lemma inv_unbind:
  assumes "pool_inv p"
  shows "pool_inv (p\<lparr> m_activeTxByThread := qh_remove (m_activeTxByThread p) tid \<rparr>)"
proof -
  let ?q = "p\<lparr> m_activeTxByThread := qh_remove (m_activeTxByThread p) tid \<rparr>"
  have "bound_ok ?q"
    using assms unfolding pool_inv_def bound_ok_def
    by (auto simp: qh_remove_def delete_conv' split: if_splits)
  moreover have "idle_ok ?q = idle_ok p" by (rule idle_ok_cong) simp_all
  moreover have "used_ok ?q = used_ok p" by (rule used_ok_cong) simp_all
  moreover have "names_ok ?q = names_ok p" by (rule names_ok_cong) simp_all
  ultimately show ?thesis using assms by (simp add: pool_inv_def)
qed

lemma inv_requeue:
  assumes "pool_inv p" and "name \<noteq> []" and "map_of (m_connOwner p) name = Some ow"
    and "\<forall>t. map_of (m_activeTxByThread p) t \<noteq> Some name"
  shows "pool_inv (enqueue ow name (p\<lparr> m_usedConnections := m_usedConnections p |-| {|name|} \<rparr>))"
proof -
  let ?q = "enqueue ow name (p\<lparr> m_usedConnections := m_usedConnections p |-| {|name|} \<rparr>)"
  have b: "bound_ok ?q"
    using assms(1,4) unfolding pool_inv_def bound_ok_def
    by (auto simp: enqueue_def)
  have old: "\<forall>n \<in> set (qh_value (m_availableByThread p) ow []). n \<noteq> [] \<and> map_of (m_connOwner p) n = Some ow"
  proof (cases "map_of (m_availableByThread p) ow")
    case None
    then show ?thesis by (simp add: qh_value_def)
  next
    case (Some q)
    then have "\<forall>n \<in> set q. n \<noteq> [] \<and> map_of (m_connOwner p) n = Some ow"
      using assms(1) unfolding pool_inv_def idle_ok_def by blast
    then show ?thesis using Some by (simp add: qh_value_def)
  qed
  have i: "idle_ok ?q"
    using assms(1,2,3) old unfolding pool_inv_def idle_ok_def
    by (auto simp: enqueue_def map_of_qh_insert split: if_splits)
  have u: "used_ok ?q"
    using assms(1) unfolding pool_inv_def used_ok_def
    by (auto simp: enqueue_def)
  have "names_ok ?q = names_ok p" by (rule names_ok_cong) (simp_all add: enqueue_def)
  then show ?thesis using b i u assms(1) by (simp add: pool_inv_def)
qed

lemma inv_release:
  assumes "pool_inv p"
  shows "pool_inv (releaseConnection tid name p)"
proof -
  define q where "q = cleanupFinishedThreads p"
  have q: "pool_inv q" using assms by (simp add: q_def inv_cleanup)
  show ?thesis
  proof (cases "name |\<in>| m_usedConnections q
                \<and> qh_value (m_activeTxByThread q) (qh_value (m_connOwner q) name tid) [] \<noteq> name")
    case False
    then have "releaseConnection tid name p = q"
      by (auto simp: releaseConnection_def Let_def q_def [symmetric])
    then show ?thesis using q by simp
  next
    case True
    then obtain ow where ow: "map_of (m_connOwner q) name = Some ow" and ne: "name \<noteq> []"
      using q unfolding pool_inv_def used_ok_def by auto
    then have val: "qh_value (m_connOwner q) name tid = ow" by (simp add: qh_value_def)
    have unbound: "\<forall>t. map_of (m_activeTxByThread q) t \<noteq> Some name"
    proof (intro allI notI)
      fix t assume t: "map_of (m_activeTxByThread q) t = Some name"
      then have "map_of (m_connOwner q) name = Some t"
        using q unfolding pool_inv_def bound_ok_def by blast
      then have "t = ow" using ow by simp
      then show False using True t val by (simp add: qh_value_def)
    qed
    have "releaseConnection tid name p
            = enqueue ow name (q\<lparr> m_usedConnections := m_usedConnections q |-| {|name|} \<rparr>)"
      using True val by (simp add: releaseConnection_def Let_def q_def [symmetric])
    then show ?thesis using inv_requeue [OF q ne ow unbound] by simp
  qed
qed

lemma inv_begin_on:
  assumes "pool_inv p" and "map_of (m_activeTxByThread p) tid = None"
    and "name = [] \<or> (name |\<in>| m_usedConnections p \<and> map_of (m_connOwner p) name = Some tid)"
  shows "pool_inv (snd (begin_on drv tid name p))"
proof (cases "name = []")
  case True
  then show ?thesis using assms(1) by (simp add: begin_on_def)
next
  case False
  then have mem: "name |\<in>| m_usedConnections p" and ow: "map_of (m_connOwner p) name = Some tid"
    using assms(3) by simp_all
  have unbound: "\<forall>t. map_of (m_activeTxByThread p) t \<noteq> Some name"
  proof (intro allI notI)
    fix t assume t: "map_of (m_activeTxByThread p) t = Some name"
    then have "map_of (m_connOwner p) name = Some t"
      using assms(1) unfolding pool_inv_def bound_ok_def by blast
    then show False using ow t assms(2) by simp
  qed
  have fail: "pool_inv (enqueue tid name (p\<lparr> m_usedConnections := m_usedConnections p |-| {|name|} \<rparr>))"
    using inv_requeue [OF assms(1) False ow unbound] .
  have fail': "pool_inv (enqueue tid name
      (p\<lparr> driver_log := l, m_usedConnections := m_usedConnections p |-| {|name|} \<rparr>))" for l
    using inv_requeue [of "p\<lparr> driver_log := l \<rparr>" name tid] assms(1) False ow unbound by simp
  let ?s = "p\<lparr> driver_log := driver_log p @ [Transaction name],
               m_activeTxByThread := qh_insert (m_activeTxByThread p) tid name \<rparr>"
  have "bound_ok ?s"
    using assms(1) False mem ow unfolding pool_inv_def bound_ok_def
    by (auto simp: map_of_qh_insert)
  moreover have "idle_ok ?s = idle_ok p" by (rule idle_ok_cong) simp_all
  moreover have "used_ok ?s = used_ok p" by (rule used_ok_cong) simp_all
  moreover have "names_ok ?s = names_ok p" by (rule names_ok_cong) simp_all
  ultimately have ok: "pool_inv ?s" using assms(1) by (simp add: pool_inv_def)
  show ?thesis using False fail fail' ok by (simp add: begin_on_def Let_def)
qed

lemma inv_forceClose:
  assumes "pool_inv p"
  shows "pool_inv (snd (forceCloseIdleConnections p))"
proof -
  let ?q = "snd (forceCloseIdleConnections p)"
  have "idle_ok ?q"
    unfolding idle_ok_def by (auto simp: forceCloseIdleConnections_def map_of_clear)
  moreover have "bound_ok ?q = bound_ok p"
    by (rule bound_ok_cong) (simp_all add: forceCloseIdleConnections_def)
  moreover have "used_ok ?q = used_ok p"
    by (rule used_ok_cong) (simp_all add: forceCloseIdleConnections_def)
  moreover have "names_ok ?q = names_ok p"
    by (rule names_ok_cong) (simp_all add: forceCloseIdleConnections_def)
  ultimately show ?thesis using assms by (simp add: pool_inv_def)
qed

lemma inv_commit: "pool_inv p \<Longrightarrow> pool_inv (snd (commitThreadTransaction drv tid p))"
  using inv_release [of "p\<lparr> m_activeTxByThread := qh_remove (m_activeTxByThread p) tid,
                            driver_log := driver_log p @ [Commit (qh_value (m_activeTxByThread p) tid [])] \<rparr>"
                        tid "qh_value (m_activeTxByThread p) tid []"]
        inv_unbind [of p tid]
  by (simp add: commitThreadTransaction_def Let_def)

lemma inv_rollback: "pool_inv p \<Longrightarrow> pool_inv (snd (rollbackThreadTransaction drv tid p))"
  using inv_release [of "p\<lparr> m_activeTxByThread := qh_remove (m_activeTxByThread p) tid,
                            driver_log := driver_log p @ [Rollback (qh_value (m_activeTxByThread p) tid [])] \<rparr>"
                        tid "qh_value (m_activeTxByThread p) tid []"]
        inv_unbind [of p tid]
  by (simp add: rollbackThreadTransaction_def Let_def)

lemma inv_acquire:
  assumes "pool_inv p"
  shows "pool_inv (snd (acquireConnection drv tid p))"
proof -
  define q where "q = (cleanupFinishedThreads p)\<lparr> m_threadRefs :=
                        qh_insert (m_threadRefs (cleanupFinishedThreads p)) tid Alive \<rparr>"
  define r where "r = q\<lparr> m_availableByThread := qh_index (m_availableByThread q) tid [] \<rparr>"
  have q: "pool_inv q" using inv_cleanup [OF assms] by (simp add: q_def)
  have r: "pool_inv r" using inv_index [OF q] by (simp add: r_def)
  have unfold: "acquireConnection drv tid p =
     (if qh_contains (m_activeTxByThread q) tid then (qh_value (m_activeTxByThread q) tid [], q)
      else case qh_value (m_availableByThread r) tid [] of
             name # rest \<Rightarrow>
               (name, r\<lparr> m_availableByThread := qh_insert (m_availableByThread r) tid rest,
                         m_usedConnections := finsert name (m_usedConnections r) \<rparr>)
           | [] \<Rightarrow>
               if totalConnectionsUnsafe r \<ge> maxConnections r then ([], r)
               else (case createConnectionInCurrentThread drv tid r of
                       (name, p3) \<Rightarrow>
                         if name \<noteq> []
                         then (name, p3\<lparr> m_connOwner := qh_insert (m_connOwner p3) name tid,
                                         m_usedConnections := finsert name (m_usedConnections p3) \<rparr>)
                         else (name, p3)))"
    unfolding acquireConnection_def Let_def q_def r_def by (rule refl)
  show ?thesis
  proof (cases "qh_contains (m_activeTxByThread q) tid")
    case True
    then show ?thesis using q unfold by simp
  next
    case noTx: False
    show ?thesis
    proof (cases "qh_value (m_availableByThread r) tid []")
      case (Cons name rest)
      then show ?thesis using noTx unfold inv_dequeue(1) [OF r Cons] by simp
    next
      case Nil
      show ?thesis
      proof (cases "totalConnectionsUnsafe r \<ge> maxConnections r")
        case True
        then show ?thesis using noTx Nil unfold r by simp
      next
        case False
        obtain name p3 where cr: "createConnectionInCurrentThread drv tid r = (name, p3)"
          by (cases "createConnectionInCurrentThread drv tid r") auto
        show ?thesis
          using noTx Nil False unfold cr inv_create [OF r cr]
          by (auto split: if_splits)
      qed
    qed
  qed
qed

lemma inv_begin:
  assumes "pool_inv p"
  shows "pool_inv (snd (beginThreadTransaction drv tid p))"
proof -
  define r where "r = p\<lparr> m_availableByThread := qh_index (m_availableByThread p) tid [] \<rparr>"
  have r: "pool_inv r" using inv_index [OF assms] by (simp add: r_def)
  have unfold: "beginThreadTransaction drv tid p =
     (if qh_contains (m_activeTxByThread p) tid then (qh_value (m_activeTxByThread p) tid [], p)
      else case qh_value (m_availableByThread r) tid [] of
             name # rest \<Rightarrow>
               begin_on drv tid name
                 (r\<lparr> m_availableByThread := qh_insert (m_availableByThread r) tid rest,
                     m_usedConnections := finsert name (m_usedConnections r) \<rparr>)
           | [] \<Rightarrow>
               if totalConnectionsUnsafe r \<ge> maxConnections r then ([], r)
               else (case createConnectionInCurrentThread drv tid r of
                       (name, p3) \<Rightarrow>
                         begin_on drv tid name
                           (if name \<noteq> []
                            then p3\<lparr> m_connOwner := qh_insert (m_connOwner p3) name tid,
                                     m_usedConnections := finsert name (m_usedConnections p3) \<rparr>
                            else p3)))"
    unfolding beginThreadTransaction_def Let_def r_def by (rule refl)
  show ?thesis
  proof (cases "qh_contains (m_activeTxByThread p) tid")
    case True
    then show ?thesis using assms unfold by simp
  next
    case noTx: False
    then have none: "map_of (m_activeTxByThread p) tid = None" by (simp add: qh_contains_def)
    show ?thesis
    proof (cases "qh_value (m_availableByThread r) tid []")
      case (Cons name rest)
      define r1 where "r1 = r\<lparr> m_availableByThread := qh_insert (m_availableByThread r) tid rest,
                               m_usedConnections := finsert name (m_usedConnections r) \<rparr>"
      have "pool_inv r1" using inv_dequeue(1) [OF r Cons] by (simp add: r1_def)
      moreover have "map_of (m_activeTxByThread r1) tid = None"
        using none by (simp add: r1_def r_def)
      moreover have "name |\<in>| m_usedConnections r1 \<and> map_of (m_connOwner r1) name = Some tid"
        using inv_dequeue(3) [OF r Cons] by (simp add: r1_def)
      ultimately have "pool_inv (snd (begin_on drv tid name r1))"
        by (simp add: inv_begin_on)
      then show ?thesis using noTx unfold Cons by (simp add: r1_def)
    next
      case Nil
      show ?thesis
      proof (cases "totalConnectionsUnsafe r \<ge> maxConnections r")
        case True
        then show ?thesis using noTx Nil unfold r by simp
      next
        case False
        obtain name p3 where cr: "createConnectionInCurrentThread drv tid r = (name, p3)"
          by (cases "createConnectionInCurrentThread drv tid r") auto
        define r1 where "r1 = (if name \<noteq> []
                            then p3\<lparr> m_connOwner := qh_insert (m_connOwner p3) name tid,
                                     m_usedConnections := finsert name (m_usedConnections p3) \<rparr>
                            else p3)"
        have "pool_inv r1" using inv_create [OF r cr] by (simp add: r1_def)
        moreover have "map_of (m_activeTxByThread r1) tid = None"
          using none create_frame(5) [OF cr] by (simp add: r1_def r_def)
        moreover have "name = [] \<or> (name |\<in>| m_usedConnections r1 \<and> map_of (m_connOwner r1) name = Some tid)"
          by (simp add: r1_def map_of_qh_insert)
        ultimately have "pool_inv (snd (begin_on drv tid name r1))"
          by (rule inv_begin_on)
        then show ?thesis using noTx Nil False unfold cr by (simp add: r1_def)
      qed
    qed
  qed
qed

lemma inv_run_op: "pool_inv p \<Longrightarrow> pool_inv (run_op x p)"
  by (cases x)
     (simp_all add: inv_acquire inv_release inv_begin inv_commit inv_rollback inv_forceClose
        inv_destroyed)

lemma inv_run_ops: "pool_inv p \<Longrightarrow> pool_inv (run_ops ops p)"
  unfolding run_ops_def
  by (induction ops arbitrary: p) (simp_all add: inv_run_op)

lemma inv_reachable: "pool_inv (run_ops ops (ConnectionPool_new cname maxc))"
  by (rule inv_run_ops) (rule inv_new)

section \<open>releaseConnection\<close>

lemma release_moves:
  assumes "name |\<in>| m_usedConnections p"
    and "qh_value (m_activeTxByThread (cleanupFinishedThreads p)) (qh_value (m_connOwner p) name tid) []
           \<noteq> name"
  shows "releaseConnection tid name p
           = enqueue (qh_value (m_connOwner p) name tid) name
               ((cleanupFinishedThreads p)\<lparr> m_usedConnections := m_usedConnections p |-| {|name|} \<rparr>)"
  using assms by (simp add: releaseConnection_def Let_def cleanup_fields)

lemma release_noop:
  assumes "name |\<notin>| m_usedConnections p
           \<or> qh_value (m_activeTxByThread (cleanupFinishedThreads p))
                (qh_value (m_connOwner p) name tid) [] = name"
  shows "releaseConnection tid name p = cleanupFinishedThreads p"
  using assms by (auto simp: releaseConnection_def Let_def cleanup_fields)

lemma enqueue_fields:
  "m_usedConnections (enqueue t n p) = m_usedConnections p"
  "m_activeTxByThread (enqueue t n p) = m_activeTxByThread p"
  "m_connOwner (enqueue t n p) = m_connOwner p"
  "m_threadRefs (enqueue t n p) = m_threadRefs p"
  "driver_log (enqueue t n p) = driver_log p"
  "qh_value (m_availableByThread (enqueue t n p)) t [] = qh_value (m_availableByThread p) t [] @ [n]"
  "t' \<noteq> t \<Longrightarrow> map_of (m_availableByThread (enqueue t n p)) t' = map_of (m_availableByThread p) t'"
  by (simp_all add: enqueue_def qh_value_insert map_of_qh_insert)



text \<open>
  C4, as the code has it. \<^verbatim>\<open>releaseConnection\<close> sweeps first. A connection that is not in
  the in-use set, or that the swept pool has bound as the active transaction of its owner,
  leaves the pool as the sweep left it, which is the pool itself when no liveness reference
  has expired. Any other connection leaves the in-use set and goes to the tail of its
  owner's idle queue; no other queue and no binding changes after the sweep. The owner is
  the thread recorded for the connection, which every connection in use has in a pool the
  operations can produce.
\<close>

theorem release_effect:
  "(name |\<notin>| m_usedConnections p
      \<or> qh_value (m_activeTxByThread (cleanupFinishedThreads p))
           (qh_value (m_connOwner p) name tid) [] = name
    \<longrightarrow> releaseConnection tid name p = cleanupFinishedThreads p)
   \<and> (name |\<in>| m_usedConnections p
      \<and> qh_value (m_activeTxByThread (cleanupFinishedThreads p))
           (qh_value (m_connOwner p) name tid) [] \<noteq> name
    \<longrightarrow> m_usedConnections (releaseConnection tid name p) = m_usedConnections p |-| {|name|}
        \<and> qh_value (m_availableByThread (releaseConnection tid name p))
              (qh_value (m_connOwner p) name tid) []
            = qh_value (m_availableByThread (cleanupFinishedThreads p))
                (qh_value (m_connOwner p) name tid) [] @ [name]
        \<and> (\<forall>t. t \<noteq> qh_value (m_connOwner p) name tid \<longrightarrow>
              map_of (m_availableByThread (releaseConnection tid name p)) t
                = map_of (m_availableByThread (cleanupFinishedThreads p)) t)
        \<and> m_activeTxByThread (releaseConnection tid name p)
            = m_activeTxByThread (cleanupFinishedThreads p))
   \<and> (stale_tids p = [] \<longrightarrow> cleanupFinishedThreads p = p)
   \<and> (pool_inv p \<and> name |\<in>| m_usedConnections p \<longrightarrow>
         map_of (m_connOwner p) name = Some (qh_value (m_connOwner p) name tid))"
proof (intro conjI impI)
  assume "name |\<notin>| m_usedConnections p
      \<or> qh_value (m_activeTxByThread (cleanupFinishedThreads p))
           (qh_value (m_connOwner p) name tid) [] = name"
  then show "releaseConnection tid name p = cleanupFinishedThreads p"
    by (rule release_noop)
next
  assume "name |\<in>| m_usedConnections p
      \<and> qh_value (m_activeTxByThread (cleanupFinishedThreads p))
           (qh_value (m_connOwner p) name tid) [] \<noteq> name"
  then have r: "releaseConnection tid name p
           = enqueue (qh_value (m_connOwner p) name tid) name
               ((cleanupFinishedThreads p)\<lparr> m_usedConnections := m_usedConnections p |-| {|name|} \<rparr>)"
    by (simp add: release_moves)
  show "m_usedConnections (releaseConnection tid name p) = m_usedConnections p |-| {|name|}"
    and "qh_value (m_availableByThread (releaseConnection tid name p))
              (qh_value (m_connOwner p) name tid) []
            = qh_value (m_availableByThread (cleanupFinishedThreads p))
                (qh_value (m_connOwner p) name tid) [] @ [name]"
    and "\<forall>t. t \<noteq> qh_value (m_connOwner p) name tid \<longrightarrow>
              map_of (m_availableByThread (releaseConnection tid name p)) t
                = map_of (m_availableByThread (cleanupFinishedThreads p)) t"
    and "m_activeTxByThread (releaseConnection tid name p)
            = m_activeTxByThread (cleanupFinishedThreads p)"
    by (simp_all add: r enqueue_fields)
next
  assume "stale_tids p = []"
  then show "cleanupFinishedThreads p = p" by (rule cleanup_no_stale)
next
  assume "pool_inv p \<and> name |\<in>| m_usedConnections p"
  then have "map_of (m_connOwner p) name \<noteq> None"
    unfolding pool_inv_def used_ok_def by blast
  then show "map_of (m_connOwner p) name = Some (qh_value (m_connOwner p) name tid)"
    by (auto simp: qh_value_def)
qed

theorem release_effect_witness:
  "''nosuch'' |\<notin>| m_usedConnections used_example
   \<and> releaseConnection ''1'' ''nosuch'' used_example = cleanupFinishedThreads used_example
   \<and> stale_tids used_example = []
   \<and> cleanupFinishedThreads used_example = used_example
   \<and> pool_inv used_example
   \<and> ''db_1_1'' |\<in>| m_usedConnections used_example
   \<and> map_of (m_connOwner used_example) ''db_1_1'' = Some ''1''
   \<and> qh_value (m_activeTxByThread (cleanupFinishedThreads used_example)) ''1'' [] \<noteq> ''db_1_1''
   \<and> m_usedConnections (releaseConnection ''2'' ''db_1_1'' used_example) = {||}
   \<and> qh_value (m_availableByThread (releaseConnection ''2'' ''db_1_1'' used_example)) ''1'' []
       = [''db_1_1'']
   \<and> map_of (m_availableByThread (releaseConnection ''2'' ''db_1_1'' used_example)) ''2'' = None"
proof -
  note w1 = release_effect [of "''nosuch''" used_example "''1''"]
  note w2 = release_effect [of "''db_1_1''" used_example "''2''"]
  have 1: "''nosuch'' |\<notin>| m_usedConnections used_example"
    and 2: "stale_tids used_example = []"
    and 3: "''db_1_1'' |\<in>| m_usedConnections used_example"
    and 4: "qh_value (m_connOwner used_example) ''db_1_1'' ''2'' = ''1''"
    and 5: "m_usedConnections used_example |-| {|''db_1_1''|} = {||}"
    and 6: "qh_value (m_availableByThread used_example) ''1'' [] = []"
    and 7: "map_of (m_availableByThread used_example) ''2'' = None"
    and 8: "qh_value (m_activeTxByThread used_example) ''1'' [] \<noteq> ''db_1_1''"
    by code_simp+
  have inv: "pool_inv used_example"
    unfolding used_example_def by (rule inv_reachable)
  have a: "releaseConnection ''1'' ''nosuch'' used_example = cleanupFinishedThreads used_example"
    using 1 w1 by blast
  have b: "cleanupFinishedThreads used_example = used_example"
    using 2 w1 by blast
  have c: "map_of (m_connOwner used_example) ''db_1_1'' = Some ''1''"
    using inv 3 4 w2 by simp
  have d: "qh_value (m_activeTxByThread (cleanupFinishedThreads used_example)) ''1'' [] \<noteq> ''db_1_1''"
    using 8 b by simp
  have e: "m_usedConnections (releaseConnection ''2'' ''db_1_1'' used_example) = {||}"
    and f: "qh_value (m_availableByThread (releaseConnection ''2'' ''db_1_1'' used_example)) ''1'' []
       = [''db_1_1'']"
    and g: "map_of (m_availableByThread (releaseConnection ''2'' ''db_1_1'' used_example)) ''2'' = None"
    using 3 4 5 6 7 d b w2 by simp_all
  show ?thesis
    by (intro conjI 1 a 2 b inv 3 c d e f g)
qed

text \<open>
  C4, as stated, fails on the idle queues: thread \<open>2\<close> releases the connection bound as
  its active transaction while the expired thread \<open>1\<close> still has an idle connection; the
  binding stays, the queue of thread \<open>1\<close> goes.
\<close>

theorem release_of_bound_connection_sweeps_counterexample:
  "fst (beginThreadTransaction drv_ok ''2'' stale_example) = ''db_2_2''
   \<and> qh_value (m_activeTxByThread (snd (beginThreadTransaction drv_ok ''2'' stale_example)))
        ''2'' [] = ''db_2_2''
   \<and> m_availableByThread (snd (beginThreadTransaction drv_ok ''2'' stale_example))
       = [(''1'', [''db_1_1'']), (''2'', [])]
   \<and> m_availableByThread
        (releaseConnection ''2'' ''db_2_2'' (snd (beginThreadTransaction drv_ok ''2'' stale_example)))
       = [(''2'', [])]
   \<and> releaseConnection ''2'' ''db_2_2'' (snd (beginThreadTransaction drv_ok ''2'' stale_example))
       \<noteq> snd (beginThreadTransaction drv_ok ''2'' stale_example)"
proof -
  have "m_availableByThread
          (releaseConnection ''2'' ''db_2_2'' (snd (beginThreadTransaction drv_ok ''2'' stale_example)))
        \<noteq> m_availableByThread (snd (beginThreadTransaction drv_ok ''2'' stale_example))"
    by code_simp
  then have "releaseConnection ''2'' ''db_2_2'' (snd (beginThreadTransaction drv_ok ''2'' stale_example))
       \<noteq> snd (beginThreadTransaction drv_ok ''2'' stale_example)"
    by auto
  moreover have "fst (beginThreadTransaction drv_ok ''2'' stale_example) = ''db_2_2''
   \<and> qh_value (m_activeTxByThread (snd (beginThreadTransaction drv_ok ''2'' stale_example)))
        ''2'' [] = ''db_2_2''
   \<and> m_availableByThread (snd (beginThreadTransaction drv_ok ''2'' stale_example))
       = [(''1'', [''db_1_1'']), (''2'', [])]
   \<and> m_availableByThread
        (releaseConnection ''2'' ''db_2_2'' (snd (beginThreadTransaction drv_ok ''2'' stale_example)))
       = [(''2'', [])]"
    by code_simp
  ultimately show ?thesis by simp
qed

section \<open>Ending a thread transaction\<close>





section \<open>A transaction that does not begin\<close>

lemma begin_on_failure:
  assumes "\<not> is_open drv \<or> \<not> transaction_ok drv" and "name \<noteq> []"
  shows "fst (begin_on drv tid name p) = []"
    and "m_usedConnections (snd (begin_on drv tid name p)) = m_usedConnections p |-| {|name|}"
    and "m_availableByThread (snd (begin_on drv tid name p))
           = qh_insert (m_availableByThread p) tid (qh_value (m_availableByThread p) tid [] @ [name])"
    and "m_activeTxByThread (snd (begin_on drv tid name p)) = m_activeTxByThread p"
    and "m_connOwner (snd (begin_on drv tid name p)) = m_connOwner p"
  using assms by (auto simp: begin_on_def Let_def enqueue_def)

text \<open>
  C7. The calling thread has no binding and the connection is closed or the driver's begin
  fails. Whether \<^verbatim>\<open>beginThreadTransaction\<close> took the connection from the head of the
  caller's idle queue or created it under the cap, it returns the empty string, the
  connection is not in the in-use set and is at the tail of the caller's idle queue, and
  the active-transaction map is unchanged.
\<close>

theorem begin_failure_requeues:
  assumes "\<not> qh_contains (m_activeTxByThread p) tid"
    and "\<not> is_open drv \<or> \<not> transaction_ok drv"
  shows "(qh_value (m_availableByThread p) tid [] = name # rest \<and> name \<noteq> [] \<longrightarrow>
            fst (beginThreadTransaction drv tid p) = []
            \<and> name |\<notin>| m_usedConnections (snd (beginThreadTransaction drv tid p))
            \<and> qh_value (m_availableByThread (snd (beginThreadTransaction drv tid p))) tid []
                = rest @ [name]
            \<and> m_activeTxByThread (snd (beginThreadTransaction drv tid p)) = m_activeTxByThread p)
       \<and> (qh_value (m_availableByThread p) tid [] = []
            \<and> totalConnectionsUnsafe p < maxConnections p \<and> open_ok drv \<longrightarrow>
            fst (beginThreadTransaction drv tid p) = []
            \<and> conn_name (connectionName p) tid (m_connectionCounter p + 1)
                 |\<notin>| m_usedConnections (snd (beginThreadTransaction drv tid p))
            \<and> qh_value (m_availableByThread (snd (beginThreadTransaction drv tid p))) tid []
                = [conn_name (connectionName p) tid (m_connectionCounter p + 1)]
            \<and> m_activeTxByThread (snd (beginThreadTransaction drv tid p)) = m_activeTxByThread p)"
proof (intro conjI impI)
  define r where "r = p\<lparr> m_availableByThread := qh_index (m_availableByThread p) tid [] \<rparr>"
  assume a: "qh_value (m_availableByThread p) tid [] = name # rest \<and> name \<noteq> []"
  then have q: "qh_value (m_availableByThread r) tid [] = name # rest"
    by (simp add: r_def qh_value_index)
  define r1 where "r1 = r\<lparr> m_availableByThread := qh_insert (m_availableByThread r) tid rest,
                           m_usedConnections := finsert name (m_usedConnections r) \<rparr>"
  have b: "beginThreadTransaction drv tid p = begin_on drv tid name r1"
    using assms(1) q by (simp add: beginThreadTransaction_def Let_def r_def [symmetric] r1_def)
  note f = begin_on_failure [OF assms(2), of name tid r1]
  show "fst (beginThreadTransaction drv tid p) = []" using a f(1) b by simp
  show "name |\<notin>| m_usedConnections (snd (beginThreadTransaction drv tid p))"
    using a f(2) b by simp
  show "qh_value (m_availableByThread (snd (beginThreadTransaction drv tid p))) tid [] = rest @ [name]"
    using a f(3) b by (simp add: qh_value_insert r1_def)
  show "m_activeTxByThread (snd (beginThreadTransaction drv tid p)) = m_activeTxByThread p"
    using a f(4) b by (simp add: r1_def r_def)
next
  define r where "r = p\<lparr> m_availableByThread := qh_index (m_availableByThread p) tid [] \<rparr>"
  define n where "n = conn_name (connectionName p) tid (m_connectionCounter p + 1)"
  assume a: "qh_value (m_availableByThread p) tid [] = []
            \<and> totalConnectionsUnsafe p < maxConnections p \<and> open_ok drv"
  then have q: "qh_value (m_availableByThread r) tid [] = []"
    by (simp add: r_def qh_value_index)
  have cap: "\<not> maxConnections r \<le> totalConnectionsUnsafe r"
    using a total_index [of p tid] by (simp add: r_def)
  have ne: "n \<noteq> []" by (simp add: n_def)
  define p3 where "p3 = r\<lparr> m_connectionCounter := m_connectionCounter p + 1,
                           driver_log := driver_log p @ [AddDatabase n] \<rparr>"
  have cr: "createConnectionInCurrentThread drv tid r = (n, p3)"
    using a by (simp add: createConnectionInCurrentThread_def Let_def r_def n_def p3_def)
  define r1 where "r1 = p3\<lparr> m_connOwner := qh_insert (m_connOwner p3) n tid,
                            m_usedConnections := finsert n (m_usedConnections p3) \<rparr>"
  have b: "beginThreadTransaction drv tid p = begin_on drv tid n r1"
    using assms(1) q cap cr ne
    by (simp add: beginThreadTransaction_def Let_def r_def [symmetric] r1_def)
  note f = begin_on_failure [OF assms(2) ne, of tid r1]
  show "fst (beginThreadTransaction drv tid p) = []" using f(1) b by simp
  show "conn_name (connectionName p) tid (m_connectionCounter p + 1)
          |\<notin>| m_usedConnections (snd (beginThreadTransaction drv tid p))"
    using f(2) b by (simp add: n_def)
  show "qh_value (m_availableByThread (snd (beginThreadTransaction drv tid p))) tid []
          = [conn_name (connectionName p) tid (m_connectionCounter p + 1)]"
    using f(3) b q by (simp add: qh_value_insert r1_def p3_def n_def)
  show "m_activeTxByThread (snd (beginThreadTransaction drv tid p)) = m_activeTxByThread p"
    using f(4) b by (simp add: r1_def p3_def r_def)
qed

theorem begin_failure_requeues_witness:
  "\<not> qh_contains (m_activeTxByThread idle_example) ''1''
   \<and> \<not> transaction_ok drv_fail
   \<and> qh_value (m_availableByThread idle_example) ''1'' [] = ''db_1_1'' # []
   \<and> fst (beginThreadTransaction drv_fail ''1'' idle_example) = []
   \<and> ''db_1_1'' |\<notin>| m_usedConnections (snd (beginThreadTransaction drv_fail ''1'' idle_example))
   \<and> qh_value (m_availableByThread (snd (beginThreadTransaction drv_fail ''1'' idle_example))) ''1'' []
       = [''db_1_1'']
   \<and> qh_value (m_availableByThread idle_example) ''2'' [] = []
   \<and> totalConnectionsUnsafe idle_example < maxConnections idle_example
   \<and> open_ok drv_fail
   \<and> fst (beginThreadTransaction drv_fail ''2'' idle_example) = []
   \<and> qh_value (m_availableByThread (snd (beginThreadTransaction drv_fail ''2'' idle_example))) ''2'' []
       = [''db_2_2'']"
proof -
  have 1: "\<not> qh_contains (m_activeTxByThread idle_example) ''1''"
    and 2: "\<not> qh_contains (m_activeTxByThread idle_example) ''2''"
    by code_simp+
  have 3: "\<not> transaction_ok drv_fail" and 4: "open_ok drv_fail"
    by (simp_all add: drv_fail_def)
  have 5: "qh_value (m_availableByThread idle_example) ''1'' [] = ''db_1_1'' # []"
    and 6: "qh_value (m_availableByThread idle_example) ''2'' [] = []"
    and 7: "totalConnectionsUnsafe idle_example < maxConnections idle_example"
    and 8: "conn_name (connectionName idle_example) ''2'' (m_connectionCounter idle_example + 1)
              = ''db_2_2''"
    by code_simp+
  have f: "\<not> is_open drv_fail \<or> \<not> transaction_ok drv_fail" using 3 by simp
  have a: "fst (beginThreadTransaction drv_fail ''1'' idle_example) = []"
    and b: "''db_1_1'' |\<notin>| m_usedConnections (snd (beginThreadTransaction drv_fail ''1'' idle_example))"
    and c: "qh_value (m_availableByThread (snd (beginThreadTransaction drv_fail ''1'' idle_example))) ''1'' []
       = [''db_1_1'']"
    using 5 begin_failure_requeues [OF 1 f, of "''db_1_1''" "[]"] by simp_all
  have d: "fst (beginThreadTransaction drv_fail ''2'' idle_example) = []"
    and e: "qh_value (m_availableByThread (snd (beginThreadTransaction drv_fail ''2'' idle_example))) ''2'' []
       = [''db_2_2'']"
    using 4 6 7 8 begin_failure_requeues [OF 2 f] by simp_all
  show ?thesis
    by (intro conjI 1 3 5 a b c 6 7 4 d e)
qed

section \<open>The running average\<close>

lemma record_step:
  assumes "0 \<le> totalQueries s"
  shows "totalQueries (record_call c s) = totalQueries s + 1"
    and "avgQueryTime (record_call c s) * real_of_int (totalQueries s + 1)
           = avgQueryTime s * real_of_int (totalQueries s) + fst (snd c)"
proof -
  show "totalQueries (record_call c s) = totalQueries s + 1"
    by (simp add: record_call_def recordQueryStats_def Let_def)
  have "real_of_int (totalQueries s + 1) \<noteq> 0" using assms by simp
  then show "avgQueryTime (record_call c s) * real_of_int (totalQueries s + 1)
           = avgQueryTime s * real_of_int (totalQueries s) + fst (snd c)"
    by (simp add: record_call_def recordQueryStats_def Let_def)
qed

lemma record_all:
  assumes "0 \<le> totalQueries s"
  shows "totalQueries (fold record_call cs s) = totalQueries s + int (length cs)
         \<and> avgQueryTime (fold record_call cs s) * real_of_int (totalQueries s + int (length cs))
             = avgQueryTime s * real_of_int (totalQueries s) + sum_list (timings cs)"
  using assms
proof (induction cs arbitrary: s)
  case Nil
  show ?case by (simp add: timings_def)
next
  case (Cons c cs)
  have nn: "0 \<le> totalQueries (record_call c s)"
    using record_step(1) [OF Cons.prems, of c] Cons.prems by simp
  show ?case
    using Cons.IH [OF nn] record_step [OF Cons.prems, of c]
    by (simp add: timings_def algebra_simps)
qed

text \<open>
  C9. After the calls \<open>cs\<close>, at least one, from the state the constructor or
  \<^verbatim>\<open>resetStatistics\<close> leaves, the stored average is the sum of the timings over their
  number; two sequences of calls with the same timings in any order end with the same
  average.
\<close>

theorem running_average_is_mean:
  "(cs \<noteq> [] \<longrightarrow>
      avgQueryTime (fold record_call cs (resetStatistics now s))
        = sum_list (timings cs) / real (length cs))
   \<and> (cs \<noteq> [] \<longrightarrow>
      avgQueryTime (fold record_call cs (DatabaseStats_init now))
        = sum_list (timings cs) / real (length cs))
   \<and> (mset (timings cs') = mset (timings cs) \<longrightarrow>
      avgQueryTime (fold record_call cs' (resetStatistics now' s'))
        = avgQueryTime (fold record_call cs (resetStatistics now s)))"
proof -
  have mean: "avgQueryTime (fold record_call xs (DatabaseStats_init t))
        = sum_list (timings xs) / real (length xs)" if "xs \<noteq> []" for xs t
  proof -
    have "avgQueryTime (fold record_call xs (DatabaseStats_init t)) * real (length xs)
            = sum_list (timings xs)"
      using record_all [of "DatabaseStats_init t" xs] by (simp add: DatabaseStats_init_def)
    moreover have "real (length xs) \<noteq> 0" using that by simp
    ultimately show ?thesis by (simp add: field_simps)
  qed
  have empty: "avgQueryTime (fold record_call [] (DatabaseStats_init t)) = 0" for t
    by (simp add: DatabaseStats_init_def)
  have perm: "avgQueryTime (fold record_call cs' (DatabaseStats_init now'))
        = avgQueryTime (fold record_call cs (DatabaseStats_init now))"
    if m: "mset (timings cs') = mset (timings cs)"
  proof (cases "cs = []")
    case True
    then have "cs' = []" using m by (simp add: timings_def)
    then show ?thesis using True empty by simp
  next
    case False
    then have ne: "cs' \<noteq> []" using m by (auto simp: timings_def)
    have "sum_list (timings cs') = sum_list (timings cs)"
      using m by (metis sum_mset_sum_list)
    moreover have "length cs' = length cs"
      using m by (metis size_mset length_map timings_def)
    ultimately show ?thesis using mean [OF False] mean [OF ne] by simp
  qed
  show ?thesis using mean perm by (simp add: resetStatistics_def)
qed

theorem running_average_is_mean_witness:
  "[(True, 3, 10), (False, 5, 11)] \<noteq> ([] :: stat_call list)
   \<and> avgQueryTime (fold record_call [(True, 3, 10), (False, 5, 11)] (DatabaseStats_init 0)) = 4
   \<and> mset (timings [(False, 5, 7), (False, 3, 8)]) = mset (timings [(True, 3, 10), (False, 5, 11)])
   \<and> avgQueryTime (fold record_call [(False, 5, 7), (False, 3, 8)] (resetStatistics 1 (DatabaseStats_init 0)))
       = avgQueryTime (fold record_call [(True, 3, 10), (False, 5, 11)] (resetStatistics 0 (DatabaseStats_init 0)))"
proof -
  have m: "mset (timings [(False, 5, 7), (False, 3, 8)]) = mset (timings [(True, 3, 10), (False, 5, 11)])"
    by (simp add: timings_def)
  have a: "avgQueryTime (fold record_call [(True, 3, 10), (False, 5, 11)] (DatabaseStats_init 0)) = 4"
    using running_average_is_mean [of "[(True, 3, 10), (False, 5, 11)]" 0]
    by (simp add: timings_def)
  have b: "avgQueryTime (fold record_call [(False, 5, 7), (False, 3, 8)] (resetStatistics 1 (DatabaseStats_init 0)))
       = avgQueryTime (fold record_call [(True, 3, 10), (False, 5, 11)] (resetStatistics 0 (DatabaseStats_init 0)))"
    using m running_average_is_mean
      [of "[(True, 3, 10), (False, 5, 11)]" 0 "DatabaseStats_init 0" "[(False, 5, 7), (False, 3, 8)]" 1
          "DatabaseStats_init 0"]
    by blast
  show ?thesis using m a b by simp
qed

section \<open>executeInTransaction\<close>

text \<open>
  C8. After a successful \<^verbatim>\<open>beginTransaction\<close>: an operation that throws is followed by
  \<^verbatim>\<open>rollbackTransaction\<close> and the exception is passed on; a \<open>bool\<close> result and a result
  with a \<^verbatim>\<open>success\<close> member are followed by \<^verbatim>\<open>commitTransaction\<close> when true and by
  \<^verbatim>\<open>rollbackTransaction\<close> when false; any other result is followed by
  \<^verbatim>\<open>commitTransaction\<close>; what the operation returns is returned.
\<close>

theorem execute_in_transaction_outcomes:
  assumes "beginTransaction drv tid m = (True, m1)"
  shows "(operation m1 = (Threw e, m2) \<longrightarrow>
            executeInTransaction rt drv tid operation m
              = (Threw e, snd (rollbackTransaction drv tid m2)))
       \<and> (operation m1 = (Returned (RBool True), m2) \<longrightarrow>
            executeInTransaction rt drv tid operation m
              = (Returned (RBool True), snd (commitTransaction drv tid m2)))
       \<and> (operation m1 = (Returned (RBool False), m2) \<longrightarrow>
            executeInTransaction rt drv tid operation m
              = (Returned (RBool False), snd (rollbackTransaction drv tid m2)))
       \<and> (operation m1 = (Returned (RSuccess True x), m2) \<longrightarrow>
            executeInTransaction rt drv tid operation m
              = (Returned (RSuccess True x), snd (commitTransaction drv tid m2)))
       \<and> (operation m1 = (Returned (RSuccess False x), m2) \<longrightarrow>
            executeInTransaction rt drv tid operation m
              = (Returned (RSuccess False x), snd (rollbackTransaction drv tid m2)))
       \<and> (operation m1 = (Returned (ROther x), m2) \<longrightarrow>
            executeInTransaction rt drv tid operation m
              = (Returned (ROther x), snd (commitTransaction drv tid m2)))
       \<and> (operation m1 = (Returned res, m2) \<longrightarrow>
            fst (executeInTransaction rt drv tid operation m) = Returned res)"
  using assms by (simp add: executeInTransaction_def)

theorem execute_in_transaction_outcomes_witness:
  "beginTransaction drv_ok ''1'' fresh_manager = (True, in_tx)
   \<and> executeInTransaction BoolType drv_ok ''1'' (\<lambda>s. (Returned (RBool True :: unit result), s)) fresh_manager
       = (Returned (RBool True), snd (commitTransaction drv_ok ''1'' in_tx))
   \<and> map_option driver_log (m_connectionPool (snd (commitTransaction drv_ok ''1'' in_tx)))
       = Some [AddDatabase ''db_1_1'', Transaction ''db_1_1'', Commit ''db_1_1'']
   \<and> executeInTransaction BoolType drv_ok ''1'' (\<lambda>s. (Returned (RBool False :: unit result), s)) fresh_manager
       = (Returned (RBool False), snd (rollbackTransaction drv_ok ''1'' in_tx))
   \<and> map_option driver_log (m_connectionPool (snd (rollbackTransaction drv_ok ''1'' in_tx)))
       = Some [AddDatabase ''db_1_1'', Transaction ''db_1_1'', Rollback ''db_1_1'']
   \<and> executeInTransaction (ClassType (ROther ())) drv_ok ''1'' (\<lambda>s. (Threw ''boom'', s)) fresh_manager
       = (Threw ''boom'', snd (rollbackTransaction drv_ok ''1'' in_tx))
   \<and> executeInTransaction (ClassType (ROther (0::nat))) drv_ok ''1'' (\<lambda>s. (Returned (ROther 7), s)) fresh_manager
       = (Returned (ROther 7), snd (commitTransaction drv_ok ''1'' in_tx))
   \<and> executeInTransaction (ClassType (RSuccess False (0::nat))) drv_ok ''1''
         (\<lambda>s. (Returned (RSuccess False 7), s)) fresh_manager
       = (Returned (RSuccess False 7), snd (rollbackTransaction drv_ok ''1'' in_tx))"
proof -
  have "fst (beginTransaction drv_ok ''1'' fresh_manager) = True"
    by code_simp
  then have b: "beginTransaction drv_ok ''1'' fresh_manager = (True, in_tx)"
    by (simp add: in_tx_def prod_eq_iff)
  have c: "map_option driver_log (m_connectionPool (snd (commitTransaction drv_ok ''1'' in_tx)))
       = Some [AddDatabase ''db_1_1'', Transaction ''db_1_1'', Commit ''db_1_1'']"
    and r: "map_option driver_log (m_connectionPool (snd (rollbackTransaction drv_ok ''1'' in_tx)))
       = Some [AddDatabase ''db_1_1'', Transaction ''db_1_1'', Rollback ''db_1_1'']"
    by code_simp+
  have 1: "executeInTransaction BoolType drv_ok ''1'' (\<lambda>s. (Returned (RBool True :: unit result), s)) fresh_manager
       = (Returned (RBool True), snd (commitTransaction drv_ok ''1'' in_tx))"
    using execute_in_transaction_outcomes
      [OF b, where operation = "\<lambda>s. (Returned (RBool True :: unit result), s)" and ?m2.0 = in_tx
         and rt = BoolType]
    by simp
  have 2: "executeInTransaction BoolType drv_ok ''1'' (\<lambda>s. (Returned (RBool False :: unit result), s)) fresh_manager
       = (Returned (RBool False), snd (rollbackTransaction drv_ok ''1'' in_tx))"
    using execute_in_transaction_outcomes
      [OF b, where operation = "\<lambda>s. (Returned (RBool False :: unit result), s)" and ?m2.0 = in_tx
         and rt = BoolType]
    by simp
  have 3: "executeInTransaction (ClassType (ROther ())) drv_ok ''1'' (\<lambda>s. (Threw ''boom'', s)) fresh_manager
       = (Threw ''boom'', snd (rollbackTransaction drv_ok ''1'' in_tx))"
    using execute_in_transaction_outcomes
      [OF b, where operation = "\<lambda>s. (Threw ''boom'' :: unit outcome, s)" and ?m2.0 = in_tx
         and rt = "ClassType (ROther ())" and e = "''boom''"]
    by simp
  have 4: "executeInTransaction (ClassType (ROther (0::nat))) drv_ok ''1'' (\<lambda>s. (Returned (ROther 7), s)) fresh_manager
       = (Returned (ROther 7), snd (commitTransaction drv_ok ''1'' in_tx))"
    using execute_in_transaction_outcomes
      [OF b, where operation = "\<lambda>s. (Returned (ROther (7::nat)), s)" and ?m2.0 = in_tx
         and rt = "ClassType (ROther 0)" and x = 7]
    by simp
  have 5: "executeInTransaction (ClassType (RSuccess False (0::nat))) drv_ok ''1''
         (\<lambda>s. (Returned (RSuccess False 7), s)) fresh_manager
       = (Returned (RSuccess False 7), snd (rollbackTransaction drv_ok ''1'' in_tx))"
    using execute_in_transaction_outcomes
      [OF b, where operation = "\<lambda>s. (Returned (RSuccess False (7::nat)), s)" and ?m2.0 = in_tx
         and rt = "ClassType (RSuccess False 0)" and x = 7]
    by simp
  show ?thesis
    by (intro conjI b 1 c 2 r 3 4 5)
qed

text \<open>
  C10. When \<^verbatim>\<open>beginTransaction\<close> fails, \<^verbatim>\<open>executeInTransaction\<close> returns \<open>false\<close> for
  \<open>bool\<close> and the value-initialised object for any other return type, and leaves the
  manager as the failed \<^verbatim>\<open>beginTransaction\<close> left it, whatever the operation is: the
  operation is not run and nothing is committed or rolled back. An operation that runs in a
  transaction and returns that same value gives the caller the same result.
\<close>

theorem execute_in_transaction_begin_fails:
  assumes "fst (beginTransaction drv tid m) = False"
  shows "executeInTransaction rt drv tid operation m
           = (Returned (default_result rt), snd (beginTransaction drv tid m))
         \<and> executeInTransaction rt drv tid operation m
             = executeInTransaction rt drv tid operation' m
         \<and> default_result (BoolType :: 'a ReturnType) = RBool False
         \<and> default_result (ClassType dflt) = dflt
         \<and> (beginTransaction drv' tid' m' = (True, m1)
              \<and> operation' m1 = (Returned (default_result rt), m2) \<longrightarrow>
             fst (executeInTransaction rt drv' tid' operation' m')
               = fst (executeInTransaction rt drv tid operation m))"
proof -
  obtain m0 where b: "beginTransaction drv tid m = (False, m0)"
    using assms by (cases "beginTransaction drv tid m") auto
  have 1: "executeInTransaction r drv tid op m = (Returned (default_result r), m0)"
    for r :: "'b ReturnType" and op
    using b by (simp add: executeInTransaction_def default_result_def split: ReturnType.splits)
  have 2: "fst (executeInTransaction rt drv' tid' operation' m') = Returned (default_result rt)"
    if "beginTransaction drv' tid' m' = (True, m1)"
      and "operation' m1 = (Returned (default_result rt), m2)"
    using that by (simp add: executeInTransaction_def)
  show ?thesis
  proof (intro conjI impI)
    show "executeInTransaction rt drv tid operation m
           = (Returned (default_result rt), snd (beginTransaction drv tid m))"
      using 1 [of rt operation] b by simp
    show "executeInTransaction rt drv tid operation m
             = executeInTransaction rt drv tid operation' m"
      using 1 [of rt operation] 1 [of rt operation'] by simp
    show "default_result (BoolType :: 'a ReturnType) = RBool False"
      and "default_result (ClassType dflt) = dflt"
      by (simp_all add: default_result_def)
    assume "beginTransaction drv' tid' m' = (True, m1)
              \<and> operation' m1 = (Returned (default_result rt), m2)"
    then have "fst (executeInTransaction rt drv' tid' operation' m') = Returned (default_result rt)"
      using 2 by blast
    then show "fst (executeInTransaction rt drv' tid' operation' m')
               = fst (executeInTransaction rt drv tid operation m)"
      using 1 [of rt operation] by simp
  qed
qed

theorem execute_in_transaction_begin_fails_witness:
  "fst (beginTransaction drv_ok ''2'' exhausted) = False
   \<and> executeInTransaction BoolType drv_ok ''2'' (\<lambda>s. (Returned (RBool True :: unit result), s)) exhausted
       = (Returned (RBool False), snd (beginTransaction drv_ok ''2'' exhausted))
   \<and> executeInTransaction (ClassType (RSuccess True (5::nat))) drv_ok ''2''
         (\<lambda>s. (Threw ''boom'', s)) exhausted
       = (Returned (RSuccess True 5), snd (beginTransaction drv_ok ''2'' exhausted))
   \<and> map_option driver_log (m_connectionPool (snd (beginTransaction drv_ok ''2'' exhausted)))
       = Some [AddDatabase ''db_1_1'', Transaction ''db_1_1'']
   \<and> emitted (snd (beginTransaction drv_ok ''2'' exhausted)) = [transactionBegin]"
proof -
  have f: "fst (beginTransaction drv_ok ''2'' exhausted) = False"
    and l: "map_option driver_log (m_connectionPool (snd (beginTransaction drv_ok ''2'' exhausted)))
       = Some [AddDatabase ''db_1_1'', Transaction ''db_1_1'']"
    and e: "emitted (snd (beginTransaction drv_ok ''2'' exhausted)) = [transactionBegin]"
    by code_simp+
  have 1: "executeInTransaction BoolType drv_ok ''2'' (\<lambda>s. (Returned (RBool True :: unit result), s)) exhausted
       = (Returned (RBool False), snd (beginTransaction drv_ok ''2'' exhausted))"
    using execute_in_transaction_begin_fails
      [OF f, where rt = "BoolType :: unit ReturnType"
         and operation = "\<lambda>s. (Returned (RBool True :: unit result), s)"]
    by (simp add: default_result_def)
  have 2: "executeInTransaction (ClassType (RSuccess True (5::nat))) drv_ok ''2''
         (\<lambda>s. (Threw ''boom'', s)) exhausted
       = (Returned (RSuccess True 5), snd (beginTransaction drv_ok ''2'' exhausted))"
    using execute_in_transaction_begin_fails
      [OF f, where rt = "ClassType (RSuccess True (5::nat))"
         and operation = "\<lambda>s. (Threw ''boom'', s)"]
    by (simp add: default_result_def)
  show ?thesis
    by (intro conjI f 1 2 l e)
qed

section \<open>optimizeDatabase\<close>

lemma force_close_counts:
  "availableCount (snd (forceCloseIdleConnections pool)) = 0"
  "usedCount (snd (forceCloseIdleConnections pool)) = usedCount pool"
  "m_usedConnections (snd (forceCloseIdleConnections pool)) = m_usedConnections pool"
  by (simp_all add: forceCloseIdleConnections_def availableCount_def usedCount_def idle_total_clear)

lemma pool_in_use_idle_closed [simp]: "pool_in_use (idle_closed m) = pool_in_use m"
  by (simp add: pool_in_use_def idle_closed_def force_close_counts split: option.splits)

lemma optimize_unfold:
  assumes "m_database_isOpen m"
  shows "optimizeDatabase exec_ok elapsed now m =
     (if pool_in_use m then (False, idle_closed m)
      else
        let m2 = (if enableWAL m
                  then snd (exec_with_stats exec_ok elapsed now
                              ''PRAGMA wal_checkpoint(TRUNCATE)'' (idle_closed m))
                  else idle_closed m);
            v = exec_with_stats exec_ok elapsed now ''VACUUM'' m2;
            a = exec_with_stats exec_ok elapsed now ''ANALYZE'' (snd v)
        in (fst v \<and> fst a, snd a))"
proof -
  have w: "enableWAL (idle_closed m) = enableWAL m"
    by (simp add: idle_closed_def split: option.splits)
  have "optimizeDatabase exec_ok elapsed now m =
     (if pool_in_use (idle_closed m) then (False, idle_closed m)
      else
        let m2 = (if enableWAL (idle_closed m)
                  then snd (exec_with_stats exec_ok elapsed now
                              ''PRAGMA wal_checkpoint(TRUNCATE)'' (idle_closed m))
                  else idle_closed m);
            v = exec_with_stats exec_ok elapsed now ''VACUUM'' m2;
            a = exec_with_stats exec_ok elapsed now ''ANALYZE'' (snd v)
        in (fst v \<and> fst a, snd a))"
    using assms unfolding optimizeDatabase_def pool_in_use_def idle_closed_def Let_def by simp
  then show ?thesis by (simp add: w)
qed

text \<open>
  C6, as the code has it. With the main connection closed, \<^verbatim>\<open>optimizeDatabase\<close> returns
  false and changes nothing. With it open, the idle pooled connections are closed first;
  then, with a pooled connection in use, it returns false, executes nothing and records
  nothing; with none in use it executes the WAL checkpoint (when WAL is enabled), VACUUM
  and ANALYZE, once each in this order, records each in the statistics, and returns
  whether VACUUM and ANALYZE both succeeded.
\<close>

theorem optimize_database:
  "(\<not> m_database_isOpen m \<longrightarrow> optimizeDatabase exec_ok elapsed now m = (False, m))
   \<and> (m_database_isOpen m \<longrightarrow>
        m_connectionPool (snd (optimizeDatabase exec_ok elapsed now m))
          = map_option (\<lambda>pool. snd (forceCloseIdleConnections pool)) (m_connectionPool m)
        \<and> (\<forall>pool. m_connectionPool (snd (optimizeDatabase exec_ok elapsed now m)) = Some pool
              \<longrightarrow> availableCount pool = 0))
   \<and> (m_database_isOpen m \<and> pool_in_use m \<longrightarrow>
        fst (optimizeDatabase exec_ok elapsed now m) = False
        \<and> m_database_log (snd (optimizeDatabase exec_ok elapsed now m)) = m_database_log m
        \<and> m_stats (snd (optimizeDatabase exec_ok elapsed now m)) = m_stats m)
   \<and> (m_database_isOpen m \<and> \<not> pool_in_use m \<longrightarrow>
        fst (optimizeDatabase exec_ok elapsed now m) = (exec_ok ''VACUUM'' \<and> exec_ok ''ANALYZE'')
        \<and> m_database_log (snd (optimizeDatabase exec_ok elapsed now m))
            = m_database_log m @ map Exec (maintenance_sql (enableWAL m))
        \<and> m_stats (snd (optimizeDatabase exec_ok elapsed now m))
            = fold (\<lambda>sql. recordQueryStats (exec_ok sql) (real_of_int (elapsed sql)) now)
                (maintenance_sql (enableWAL m)) (m_stats m))"
proof (intro conjI impI allI)
  assume "\<not> m_database_isOpen m"
  then show "optimizeDatabase exec_ok elapsed now m = (False, m)"
    by (simp add: optimizeDatabase_def)
next
  assume o: "m_database_isOpen m"
  show p: "m_connectionPool (snd (optimizeDatabase exec_ok elapsed now m))
          = map_option (\<lambda>pool. snd (forceCloseIdleConnections pool)) (m_connectionPool m)"
    by (simp add: optimize_unfold [OF o] Let_def exec_with_stats_def idle_closed_def
        split: option.splits)
  fix pool
  assume "m_connectionPool (snd (optimizeDatabase exec_ok elapsed now m)) = Some pool"
  then show "availableCount pool = 0"
    using p by (auto simp: force_close_counts)
next
  assume a: "m_database_isOpen m \<and> pool_in_use m"
  then have r: "optimizeDatabase exec_ok elapsed now m = (False, idle_closed m)"
    by (simp add: optimize_unfold)
  show "fst (optimizeDatabase exec_ok elapsed now m) = False"
    and "m_database_log (snd (optimizeDatabase exec_ok elapsed now m)) = m_database_log m"
    and "m_stats (snd (optimizeDatabase exec_ok elapsed now m)) = m_stats m"
    by (simp_all add: r idle_closed_def split: option.splits)
next
  assume a: "m_database_isOpen m \<and> \<not> pool_in_use m"
  have l: "m_database_log (idle_closed m) = m_database_log m"
    and s: "m_stats (idle_closed m) = m_stats m"
    by (simp_all add: idle_closed_def split: option.splits)
  show "fst (optimizeDatabase exec_ok elapsed now m) = (exec_ok ''VACUUM'' \<and> exec_ok ''ANALYZE'')"
    using a by (simp add: optimize_unfold Let_def exec_with_stats_def)
  show "m_database_log (snd (optimizeDatabase exec_ok elapsed now m))
            = m_database_log m @ map Exec (maintenance_sql (enableWAL m))"
    using a l by (simp add: optimize_unfold Let_def exec_with_stats_def maintenance_sql_def)
  show "m_stats (snd (optimizeDatabase exec_ok elapsed now m))
            = fold (\<lambda>sql. recordQueryStats (exec_ok sql) (real_of_int (elapsed sql)) now)
                (maintenance_sql (enableWAL m)) (m_stats m)"
    using a s by (simp add: optimize_unfold Let_def exec_with_stats_def maintenance_sql_def)
qed

theorem optimize_database_witness:
  "\<not> m_database_isOpen closed_example
   \<and> optimizeDatabase (\<lambda>sql. True) (\<lambda>sql. 0) 0 closed_example = (False, closed_example)
   \<and> m_database_isOpen open_example
   \<and> \<not> pool_in_use open_example
   \<and> enableWAL open_example
   \<and> fst (optimizeDatabase (\<lambda>sql. sql \<noteq> ''PRAGMA wal_checkpoint(TRUNCATE)'') (\<lambda>sql. 0) 0 open_example)
   \<and> m_database_log
        (snd (optimizeDatabase (\<lambda>sql. sql \<noteq> ''PRAGMA wal_checkpoint(TRUNCATE)'') (\<lambda>sql. 0) 0 open_example))
       = [Exec ''PRAGMA wal_checkpoint(TRUNCATE)'', Exec ''VACUUM'', Exec ''ANALYZE'']
   \<and> totalQueries
        (m_stats (snd (optimizeDatabase (\<lambda>sql. sql \<noteq> ''PRAGMA wal_checkpoint(TRUNCATE)'') (\<lambda>sql. 0) 0 open_example)))
       = 3
   \<and> m_database_isOpen busy_example
   \<and> pool_in_use busy_example
   \<and> fst (optimizeDatabase (\<lambda>sql. True) (\<lambda>sql. 0) 0 busy_example) = False
   \<and> m_database_log (snd (optimizeDatabase (\<lambda>sql. True) (\<lambda>sql. 0) 0 busy_example)) = []"
proof -
  have c: "\<not> m_database_isOpen closed_example"
    and o: "m_database_isOpen open_example" "\<not> pool_in_use open_example" "enableWAL open_example"
    and b: "m_database_isOpen busy_example" "pool_in_use busy_example"
    and l: "m_database_log open_example = []" "m_database_log busy_example = []"
    and t: "totalQueries (m_stats open_example) = 0"
    by code_simp+
  note w0 = optimize_database [of closed_example "\<lambda>sql. True" "\<lambda>sql. 0" 0]
  note w1 = optimize_database
    [of open_example "\<lambda>sql. sql \<noteq> ''PRAGMA wal_checkpoint(TRUNCATE)''" "\<lambda>sql. 0" 0]
  note w2 = optimize_database [of busy_example "\<lambda>sql. True" "\<lambda>sql. 0" 0]
  have 1: "optimizeDatabase (\<lambda>sql. True) (\<lambda>sql. 0) 0 closed_example = (False, closed_example)"
    using c w0 by blast
  have 2: "fst (optimizeDatabase (\<lambda>sql. sql \<noteq> ''PRAGMA wal_checkpoint(TRUNCATE)'') (\<lambda>sql. 0) 0 open_example)"
    using o w1 by simp
  have 3: "m_database_log
        (snd (optimizeDatabase (\<lambda>sql. sql \<noteq> ''PRAGMA wal_checkpoint(TRUNCATE)'') (\<lambda>sql. 0) 0 open_example))
       = [Exec ''PRAGMA wal_checkpoint(TRUNCATE)'', Exec ''VACUUM'', Exec ''ANALYZE'']"
    using o l w1 by (simp add: maintenance_sql_def)
  have 4: "totalQueries
        (m_stats (snd (optimizeDatabase (\<lambda>sql. sql \<noteq> ''PRAGMA wal_checkpoint(TRUNCATE)'') (\<lambda>sql. 0) 0 open_example)))
       = 3"
    using o t w1 by (simp add: maintenance_sql_def recordQueryStats_def Let_def)
  have 5: "fst (optimizeDatabase (\<lambda>sql. True) (\<lambda>sql. 0) 0 busy_example) = False"
    and 6: "m_database_log (snd (optimizeDatabase (\<lambda>sql. True) (\<lambda>sql. 0) 0 busy_example)) = []"
    using b l w2 by simp_all
  show ?thesis
    by (intro conjI c 1 o 2 3 4 b 5 6)
qed

text \<open>
  C6, as stated, fails with the main connection closed: no pooled connection is in use,
  one is idle, every statement would succeed; the call returns false, executes nothing and
  leaves the idle connection open.
\<close>

theorem optimize_on_closed_database_counterexample:
  "\<not> m_database_isOpen closed_example
   \<and> \<not> pool_in_use closed_example
   \<and> map_option availableCount (m_connectionPool closed_example) = Some 1
   \<and> fst (optimizeDatabase (\<lambda>sql. True) (\<lambda>sql. 0) 0 closed_example) = False
   \<and> m_database_log (snd (optimizeDatabase (\<lambda>sql. True) (\<lambda>sql. 0) 0 closed_example)) = []
   \<and> map_option availableCount
        (m_connectionPool (snd (optimizeDatabase (\<lambda>sql. True) (\<lambda>sql. 0) 0 closed_example)))
       = Some 1"
  by code_simp

end
